theory Spec2Isabelle
  imports Main "HOL-Library.Word"
begin

section \<open>Declared entities and resolved types\<close>

text \<open>
  The analysis of \<^verbatim>\<open>unused.go\<close> works on objects of the Go type checker
  (\<^verbatim>\<open>types.Object\<close>). An object is modelled by the answers the analysis asks of it:
  its name, its dynamic class, its package, whether it is a struct field, whether it is an
  embedded field, whether its parent scope is the package scope
  (\<^verbatim>\<open>obj.Parent() == obj.Pkg().Scope()\<close>), the file and line of its declaration, and
  an instance number that tells a generic instantiation (\<open>oinst > 0\<close>) from the
  declaration it originates from (\<open>oinst = 0\<close>). \<open>oid\<close> is the identity of the
  declaration.
\<close>

datatype objclass = Var | Func | TypeName | Const | PkgName | OtherObject

record package =
  pkg_path :: string
  pkg_name :: string

record object =
  oid :: nat
  oname :: string
  oclass :: objclass
  opkg :: "package option"
  oisfield :: bool
  oembedded :: bool
  oglobal :: bool
  ofile :: string
  oline :: int
  oinst :: nat

text \<open>\<^verbatim>\<open>origin\<close>: variables and functions are tracked by their origin declaration.\<close>

definition origin :: "object \<Rightarrow> object" where
  "origin ob = (case oclass ob of
      Var \<Rightarrow> ob\<lparr>oinst := 0\<rparr>
    | Func \<Rightarrow> ob\<lparr>oinst := 0\<rparr>
    | _ \<Rightarrow> ob)"

text \<open>\<^verbatim>\<open>ourIsIrrelevant\<close>\<close>

definition ourIsIrrelevant :: "object \<Rightarrow> bool" where
  "ourIsIrrelevant ob = (case oclass ob of PkgName \<Rightarrow> True | _ \<Rightarrow> False)"

text \<open>\<^verbatim>\<open>isGlobal\<close>\<close>

definition isGlobal :: "object \<Rightarrow> bool" where
  "isGlobal ob = oglobal ob"

text \<open>
  \<^verbatim>\<open>utf8.DecodeRuneInString\<close> of the Go library, the rune it returns: the first
  code point of a string of bytes, and \<^verbatim>\<open>RuneError\<close> (\<open>0xFFFD\<close>) when the string is
  empty or does not begin with a valid encoding.
\<close>

definition RuneError :: nat where
  "RuneError = 65533"

definition cont :: "nat \<Rightarrow> nat \<Rightarrow> char list \<Rightarrow> nat option" where
  "cont lo hi s = (case s of
      [] \<Rightarrow> None
    | c # _ \<Rightarrow> if of_char c < lo \<or> hi < of_char c then None else Some (of_char c mod 64))"

definition DecodeRune :: "string \<Rightarrow> nat" where
  "DecodeRune s = (case s of
      [] \<Rightarrow> RuneError
    | c # rest \<Rightarrow>
        (let s0 = (of_char c :: nat) in
         if s0 < 128 then s0
         else if s0 < 194 \<or> 244 < s0 then RuneError
         else if s0 < 224 then
           (case cont 128 191 rest of
              None \<Rightarrow> RuneError
            | Some s1 \<Rightarrow> (s0 mod 32) * 64 + s1)
         else if s0 < 240 then
           (case cont (if s0 = 224 then 160 else 128) (if s0 = 237 then 159 else 191) rest of
              None \<Rightarrow> RuneError
            | Some s1 \<Rightarrow>
                (case cont 128 191 (drop 1 rest) of
                   None \<Rightarrow> RuneError
                 | Some s2 \<Rightarrow> (s0 mod 16) * 4096 + s1 * 64 + s2))
         else
           (case cont (if s0 = 240 then 144 else 128) (if s0 = 244 then 143 else 191) rest of
              None \<Rightarrow> RuneError
            | Some s1 \<Rightarrow>
                (case cont 128 191 (drop 1 rest) of
                   None \<Rightarrow> RuneError
                 | Some s2 \<Rightarrow>
                     (case cont 128 191 (drop 2 rest) of
                        None \<Rightarrow> RuneError
                      | Some s3 \<Rightarrow> (s0 mod 8) * 262144 + s1 * 4096 + s2 * 64 + s3)))))"

text \<open>
  \<^verbatim>\<open>unicode.IsUpper\<close> of the Go library. Up to \<^verbatim>\<open>MaxLatin1\<close> the upper-case
  letters are \<^verbatim>\<open>A\<close> to \<^verbatim>\<open>Z\<close>, \<open>0xC0\<close> to \<open>0xD6\<close> and \<open>0xD8\<close> to \<open>0xDE\<close>;
  above it the library looks the rune up in its range table \<^verbatim>\<open>unicode.Upper\<close>, which
  is not part of the repository and is a parameter here.
\<close>

definition IsUpper :: "(nat \<Rightarrow> bool) \<Rightarrow> nat \<Rightarrow> bool" where
  "IsUpper upper r =
     (if r \<le> 255
      then (65 \<le> r \<and> r \<le> 90) \<or> (192 \<le> r \<and> r \<le> 214) \<or> (216 \<le> r \<and> r \<le> 222)
      else upper r)"

text \<open>\<^verbatim>\<open>token.IsExported\<close> of the Go library: the first rune of the name is upper case.\<close>

definition IsExported :: "(nat \<Rightarrow> bool) \<Rightarrow> string \<Rightarrow> bool" where
  "IsExported upper name = IsUpper upper (DecodeRune name)"

text \<open>
  Types of the type checker, as finite trees. A struct carries the identity of its
  \<^verbatim>\<open>*types.Struct\<close> and its fields with their types; a named type carries its type
  name, its declared methods, each with the number of its parameters and of its results, and
  its underlying type. A recursive type is
  given by its unfolding up to the first repetition of a struct identity, which is as far as
  any walk of the analysis goes.
\<close>

datatype gotype =
    Basic string
  | Named object "(object \<times> nat \<times> nat) list" gotype
  | Pointer gotype
  | Struct nat "(object \<times> gotype) list"
  | Interface nat
  | Signature nat nat
  | TypeParam nat "gotype option"
  | OtherType

fun Underlying :: "gotype \<Rightarrow> gotype" where
  "Underlying (Named _ _ u) = u"
| "Underlying (TypeParam i _) = Interface i"
| "Underlying t = t"

text \<open>
  Modelled from the spec: \<^verbatim>\<open>typeutil.Dereference\<close> and \<^verbatim>\<open>typeutil.CoreType\<close>
  are not under src/; the spec calls them pointer and alias stripping. \<open>Dereference\<close> gives
  the element type of a pointer and leaves any other type alone; \<open>CoreType\<close> gives the
  underlying type, and for a type parameter its core type, if it has one.
\<close>

definition Dereference :: "gotype \<Rightarrow> gotype" where
  "Dereference t = (case Underlying t of Pointer e \<Rightarrow> e | _ \<Rightarrow> t)"

definition CoreType :: "gotype \<Rightarrow> gotype option" where
  "CoreType t = (case t of TypeParam _ c \<Rightarrow> c | _ \<Rightarrow> Some (Underlying t))"

definition UnsafePointer :: gotype where
  "UnsafePointer = Basic ''unsafe.Pointer''"

text \<open>A resolved selection (\<^verbatim>\<open>types.Selection\<close>): index path, receiver type, member.\<close>

datatype selection = Selection (Index: "nat list") (Recv: gotype) (Obj: object)

section \<open>The typed syntax tree\<close>

text \<open>
  Every fact the builder obtains from \<^verbatim>\<open>pass.TypesInfo\<close> is stored on the syntax
  node it is asked about: the object and the type of an identifier, the type of a composite
  literal, struct type or interface type, the selection of a selector expression, and the
  types of the function and of the first argument of a call (the last two fields of
  \<open>CallExpr\<close>; the flag before them is \<^verbatim>\<open>Ellipsis.IsValid()\<close>).

  A nil node is the constructor \<open>NilExpr\<close> or \<open>NilStmt\<close>. A nil field list, a nil block
  and a nil comment group are the empty list: the builder returns at once on nil and loops
  zero times on empty. A case clause and a communication clause are statements, as in
  \<^verbatim>\<open>go/ast\<close>. The flag of a \<open>TypeSpec\<close> is \<^verbatim>\<open>Assign.IsValid()\<close> (an alias
  declaration). The flag of a \<open>ValueSpec\<close> says that the spec is separated from the spec
  before it by an empty line; it is what \<^verbatim>\<open>astutil.GroupSpecs\<close> reads from the
  positions of the file set. The strings of a \<open>FuncDecl\<close> are the lines of its doc comment.
\<close>

datatype ident = MkIdent (Name: string) (ObjectOf: "object option") (TypeOf: "gotype option")

datatype token = IMPORT_tok | CONST_tok | TYPE_tok | VAR_tok | DEFINE_tok | ASSIGN_tok | OtherToken

datatype expr =
    NilExpr
  | Ident ident
  | BasicLit
  | SliceExpr expr expr expr expr
  | UnaryExpr expr
  | ParenExpr expr
  | ArrayType expr expr
  | SelectorExpr expr ident "selection option"
  | IndexExpr expr expr
  | IndexListExpr expr "expr list"
  | BinaryExpr expr expr
  | CompositeLit expr "expr list" "gotype option"
  | KeyValueExpr expr expr
  | StarExpr expr
  | MapType expr expr
  | FuncLit expr "stmt list"
  | FuncType "field list" "field list" "field list"
  | ChanType expr
  | StructType "field list" "gotype option"
  | TypeAssertExpr expr expr
  | InterfaceType "field list" "gotype option"
  | Ellipsis expr
  | CallExpr expr "expr list" bool "gotype option" "gotype option"
  | BadExpr
and field = Field "ident list" expr
and stmt =
    NilStmt
  | AssignStmt token "expr list" "expr list"
  | BlockStmt "stmt list"
  | BranchStmt
  | DeclStmt decl
  | DeferStmt expr
  | ExprStmt expr
  | ForStmt stmt expr stmt "stmt list"
  | GoStmt expr
  | IfStmt stmt expr "stmt list" stmt
  | IncDecStmt expr
  | RangeStmt expr expr expr "stmt list"
  | ReturnStmt "expr list"
  | SelectStmt "stmt list"
  | SendStmt expr expr
  | SwitchStmt stmt expr "stmt list"
  | TypeSwitchStmt stmt stmt "stmt list"
  | EmptyStmt
  | LabeledStmt stmt
  | CaseClause "expr list" "stmt list"
  | CommClause stmt "stmt list"
  | BadStmt
and spec =
    ValueSpec bool "ident list" expr "expr list"
  | TypeSpec ident "field list" bool expr
  | ImportSpec
and decl =
    GenDecl token "spec list"
  | FuncDecl ident "field list" expr "stmt list" "string list"
  | BadDecl

record ast_file =
  Comments :: "string list"
  Decls :: "decl list"

record directive =
  Command :: string
  Arguments :: "string list"
  dir_file :: string
  dir_line :: int

text \<open>
  The analysis pass: the package, its files, and what the collaborators supply: the lookup
  in the package scope, the type of an object, whether a type name is an alias, the method
  set of a type, the interface
  satisfaction check \<^verbatim>\<open>implements\<close> and the table \<^verbatim>\<open>runtimeFuncs\<close> (both
  declared outside src/), the table \<^verbatim>\<open>unicode.Upper\<close> of the Go library, and the
  directives found in comments.
\<close>

record pass =
  Pkg :: package
  Files :: "ast_file list"
  ScopeLookup :: "string \<Rightarrow> object option"
  ObjType :: "object \<Rightarrow> gotype"
  IsAlias :: "object \<Rightarrow> bool"
  MethodSet :: "gotype \<Rightarrow> selection list"
  implements :: "gotype \<Rightarrow> gotype \<Rightarrow> selection list \<Rightarrow> selection list option"
  runtimeFuncs :: "string \<Rightarrow> bool"
  Upper :: "nat \<Rightarrow> bool"
  Directives :: "directive list"

section \<open>The graph store\<close>

text \<open>
  A node is referred to by its key: \<open>None\<close> for Root, \<open>Some ob\<close> for the node of the
  object \<open>ob\<close>. \<open>Nodes\<close> is the map \<^verbatim>\<open>g.Nodes\<close> in insertion order; the order in
  which Go iterates over a map is unspecified, and nothing below is stated about order.
\<close>

type_synonym key = "object option"

record node =
  obj :: "object option"
  node_id :: "64 word"
  uses :: "key list"
  owns :: "key list"
  seen :: bool
  quiet :: bool

record graph =
  Root :: node
  Nodes :: "(object \<times> node) list"
  nodeCounter :: "64 word"
  namedTypes :: "object list"
  interfaceTypes :: "gotype list"

datatype error =
    FailedAssertion
  | SawNilObject
  | NilDereference
  | UnhandledCase
  | UnexpectedToken
  | UnexpectedNames
  | FailedTypeAssertion
  | IndexOutOfRange
  | PanicAtPosition

definition newNode :: "object option \<Rightarrow> graph \<Rightarrow> node \<times> graph" where
  "newNode ob g =
     (\<lparr>obj = ob, node_id = nodeCounter g + 1, uses = [], owns = [], seen = False, quiet = False\<rparr>,
      g\<lparr>nodeCounter := nodeCounter g + 1\<rparr>)"

definition get :: "graph \<Rightarrow> key \<Rightarrow> node option" where
  "get g k = (case k of None \<Rightarrow> Some (Root g) | Some ob \<Rightarrow> map_of (Nodes g) ob)"

definition upd :: "key \<Rightarrow> (node \<Rightarrow> node) \<Rightarrow> graph \<Rightarrow> graph" where
  "upd k f g = (case k of
      None \<Rightarrow> g\<lparr>Root := f (Root g)\<rparr>
    | Some ob \<Rightarrow> g\<lparr>Nodes := map (\<lambda>(ob', n). if ob' = ob then (ob', f n) else (ob', n)) (Nodes g)\<rparr>)"

text \<open>\<^verbatim>\<open>graph.node\<close>: the key of the node of an object, created on first mention.\<close>

definition node :: "object option \<Rightarrow> graph \<Rightarrow> key \<times> graph" where
  "node ob g = (case ob of
      None \<Rightarrow> (None, g)
    | Some ob0 \<Rightarrow>
        (let ob' = origin ob0 in
         case map_of (Nodes g) ob' of
           Some n \<Rightarrow> (Some ob', g)
         | None \<Rightarrow>
             (let (n, g1) = newNode (Some ob') g
              in (Some ob', g1\<lparr>Nodes := Nodes g1 @ [(ob', n)]\<rparr>))))"

text \<open>\<^verbatim>\<open>graph.see\<close>\<close>

definition see :: "object option \<Rightarrow> object option \<Rightarrow> graph \<Rightarrow> error + graph" where
  "see ob owner g = (case ob of
      None \<Rightarrow> Inl SawNilObject
    | Some _ \<Rightarrow>
        (let (nObj, g1) = node ob g in
         case owner of
           None \<Rightarrow> Inr g1
         | Some _ \<Rightarrow>
             (let (nOwner, g2) = node owner g1
              in Inr (upd nOwner (\<lambda>n. n\<lparr>owns := owns n @ [nObj]\<rparr>) g2))))"

text \<open>\<^verbatim>\<open>graph.use\<close>\<close>

definition use :: "pass \<Rightarrow> object option \<Rightarrow> object option \<Rightarrow> graph \<Rightarrow> error + graph" where
  "use p used by g = (case used of
      None \<Rightarrow> Inl NilDereference
    | Some u \<Rightarrow>
        if opkg u \<noteq> Some (Pkg p) then Inr g
        else if ourIsIrrelevant u then Inr g
        else (let (nUsed, g1) = node used g;
                  (nBy, g2) = node by g1
              in Inr (upd nBy (\<lambda>n. n\<lparr>uses := uses n @ [nUsed]\<rparr>) g2)))"

section \<open>The builder\<close>

text \<open>
  A step of the builder takes the graph and gives the graph back, or fails: a failure is a
  panic of the source, and the graph of a failed step is lost.
\<close>

type_synonym step = "graph \<Rightarrow> error + graph"

definition ok :: step where
  "ok g = Inr g"

definition fail :: "error \<Rightarrow> step" where
  "fail e g = Inl e"

fun seqE :: "step list \<Rightarrow> step" where
  "seqE [] g = Inr g"
| "seqE (f # fs) g = (case f g of Inl e \<Rightarrow> Inl e | Inr g' \<Rightarrow> seqE fs g')"

definition assert :: "bool \<Rightarrow> step" where
  "assert b = (if b then ok else fail FailedAssertion)"

definition HasPrefix :: "string \<Rightarrow> string \<Rightarrow> bool" where
  "HasPrefix s pre = (take (length pre) s = pre)"

definition HasSuffix :: "string \<Rightarrow> string \<Rightarrow> bool" where
  "HasSuffix s suf = (length suf \<le> length s \<and> drop (length s - length suf) s = suf)"

fun readSelection_walk :: "pass \<Rightarrow> nat list \<Rightarrow> gotype \<Rightarrow> key \<Rightarrow> step" where
  "readSelection_walk p [] base by = ok"
| "readSelection_walk p (idx # rest) base by =
     (case Underlying (Dereference (Underlying base)) of
        Struct _ fs \<Rightarrow>
          if idx < length fs
          then seqE [use p (Some (fst (fs ! idx))) by,
                     readSelection_walk p rest (snd (fs ! idx)) by]
          else fail IndexOutOfRange
      | _ \<Rightarrow> fail FailedTypeAssertion)"

definition readSelection :: "pass \<Rightarrow> selection \<Rightarrow> key \<Rightarrow> step" where
  "readSelection p sel by =
     (if Index sel = [] then fail IndexOutOfRange
      else seqE [readSelection_walk p (butlast (Index sel)) (Recv sel) by,
                 use p (Some (Obj sel)) by])"

fun embeddedField_walk :: "expr \<Rightarrow> expr list \<Rightarrow> error + (ident \<times> expr list)" where
  "embeddedField_walk (Ident i) nodes = Inr (i, nodes)"
| "embeddedField_walk (StarExpr x) nodes = embeddedField_walk x nodes"
| "embeddedField_walk (SelectorExpr x sel _) nodes = Inr (sel, nodes @ [x])"
| "embeddedField_walk (IndexExpr x i) nodes = embeddedField_walk x (nodes @ [i])"
| "embeddedField_walk (IndexListExpr x _) nodes = embeddedField_walk x nodes"
| "embeddedField_walk _ nodes = Inl UnhandledCase"

definition embeddedField_obj :: "expr \<Rightarrow> error + object" where
  "embeddedField_obj e = (case embeddedField_walk e [] of
      Inl err \<Rightarrow> Inl err
    | Inr (i, _) \<Rightarrow>
        (case ObjectOf i of
           None \<Rightarrow> Inl FailedTypeAssertion
         | Some ob \<Rightarrow> if oclass ob = Var then Inr ob else Inl FailedTypeAssertion))"

definition embeddedField_nodes :: "expr \<Rightarrow> expr list" where
  "embeddedField_nodes e = (case embeddedField_walk e [] of
      Inl err \<Rightarrow> []
    | Inr (_, nodes) \<Rightarrow> nodes)"

definition embeddedField_type :: "pass \<Rightarrow> expr \<Rightarrow> object \<Rightarrow> step" where
  "embeddedField_type p e ob = (case embeddedField_walk e [] of
      Inl err \<Rightarrow> fail err
    | Inr (i, _) \<Rightarrow>
        (case TypeOf i of
           None \<Rightarrow> fail NilDereference
         | Some t \<Rightarrow>
             (case Dereference t of
                Named tn _ _ \<Rightarrow> use p (Some tn) (Some ob)
              | Basic _ \<Rightarrow> ok
              | _ \<Rightarrow> fail UnhandledCase)))"

fun isKeyValueExpr :: "expr \<Rightarrow> bool" where
  "isKeyValueExpr (KeyValueExpr _ _) = True"
| "isKeyValueExpr _ = False"

definition compositeLitFields :: "pass \<Rightarrow> gotype option \<Rightarrow> expr list \<Rightarrow> key \<Rightarrow> step" where
  "compositeLitFields p ty elts by = (case ty of
      None \<Rightarrow> fail NilDereference
    | Some t \<Rightarrow>
        (case CoreType t of
           Some (Struct _ fs) \<Rightarrow>
             if elts \<noteq> [] \<and> \<not> isKeyValueExpr (hd elts)
             then seqE (map (\<lambda>f. use p (Some (fst f)) by) fs)
             else ok
         | _ \<Rightarrow> ok))"

definition structFields :: "gotype option \<Rightarrow> (object \<times> gotype) list option" where
  "structFields t = (case t of Some (Struct _ fs) \<Rightarrow> Some fs | _ \<Rightarrow> None)"

definition conversion :: "pass \<Rightarrow> expr list \<Rightarrow> bool \<Rightarrow> gotype option \<Rightarrow> gotype option \<Rightarrow> key \<Rightarrow> step" where
  "conversion p args ellipsis dst src by =
     (if length args \<noteq> 1 \<or> ellipsis then ok
      else case (dst, src) of
        (Some dst', Some src') \<Rightarrow>
          (let tSrc = CoreType (Dereference src');
               tDst = CoreType (Dereference dst')
           in case (structFields tDst, structFields tSrc) of
                (Some stDst, Some stSrc) \<Rightarrow>
                  seqE [assert (length stDst = length stSrc),
                        seqE (map (\<lambda>i. seqE [use p (Some (fst (stDst ! i))) (Some (fst (stSrc ! i))),
                                               use p (Some (fst (stSrc ! i))) (Some (fst (stDst ! i)))])
                                  [0 ..< length stDst])]
              | (None, Some stSrc) \<Rightarrow>
                  if tDst = Some UnsafePointer
                  then seqE (map (\<lambda>f. use p (Some (fst f)) by) stSrc)
                  else ok
              | (Some stDst, None) \<Rightarrow>
                  if tSrc = Some UnsafePointer
                  then seqE (map (\<lambda>f. use p (Some (fst f)) by) stDst)
                  else ok
              | (None, None) \<Rightarrow> ok)
      | _ \<Rightarrow> fail NilDereference)"

definition registerInterface :: "gotype option \<Rightarrow> field list \<Rightarrow> step" where
  "registerInterface ty methods =
     (if methods \<noteq> []
      then (case ty of
              Some (Interface i) \<Rightarrow> (\<lambda>g. Inr (g\<lparr>interfaceTypes := interfaceTypes g @ [Interface i]\<rparr>))
            | _ \<Rightarrow> fail FailedTypeAssertion)
      else ok)"

definition recovered :: "bool \<Rightarrow> error + graph \<Rightarrow> error + graph" where
  "recovered deferred r = (case r of
      Inl e \<Rightarrow> Inl (if deferred then PanicAtPosition else e)
    | Inr g \<Rightarrow> Inr g)"

fun assignDefine :: "expr list \<Rightarrow> key \<Rightarrow> bool \<Rightarrow> graph \<Rightarrow> error + (bool \<times> graph)" where
  "assignDefine [] by deferred g = Inr (deferred, g)"
| "assignDefine (l # ls) by deferred g = (case l of
      Ident i \<Rightarrow>
        (case ObjectOf i of
           None \<Rightarrow> assignDefine ls by deferred g
         | Some ob \<Rightarrow>
             (case see (Some ob) by g of
                Inl e \<Rightarrow> Inl PanicAtPosition
              | Inr g' \<Rightarrow> assignDefine ls by True g'))
    | _ \<Rightarrow> Inl (if deferred then PanicAtPosition else FailedTypeAssertion))"

fun startsGroup :: "spec \<Rightarrow> bool" where
  "startsGroup (ValueSpec b _ _ _) = b"
| "startsGroup _ = False"

fun GroupSpecs_loop :: "spec list list \<Rightarrow> spec list \<Rightarrow> spec list list" where
  "GroupSpecs_loop groups [] = groups"
| "GroupSpecs_loop groups (s # ss) =
     GroupSpecs_loop (if startsGroup s then groups @ [[s]]
                      else butlast groups @ [last groups @ [s]]) ss"

definition GroupSpecs :: "spec list \<Rightarrow> spec list list" where
  "GroupSpecs specs = (case specs of [] \<Rightarrow> [] | s # ss \<Rightarrow> GroupSpecs_loop [[s]] ss)"

fun specNames :: "spec \<Rightarrow> error + ident list" where
  "specNames (ValueSpec _ names _ _) = Inr names"
| "specNames _ = Inl FailedTypeAssertion"

fun constRing :: "pass \<Rightarrow> ident list \<Rightarrow> key \<Rightarrow> key \<Rightarrow> key \<Rightarrow> graph
    \<Rightarrow> error + (key \<times> key \<times> key \<times> graph)" where
  "constRing p [] first prev lst g = Inr (first, prev, lst, g)"
| "constRing p (n # ns) first prev lst g =
     (if Name n = ''_'' then constRing p ns first prev lst g
      else if first = None then constRing p ns (ObjectOf n) (ObjectOf n) (ObjectOf n) g
      else case use p (ObjectOf n) prev g of
             Inl e \<Rightarrow> Inl e
           | Inr g' \<Rightarrow> constRing p ns first (ObjectOf n) (ObjectOf n) g')"

fun constGroup_loop :: "pass \<Rightarrow> spec list \<Rightarrow> key \<Rightarrow> key \<Rightarrow> key \<Rightarrow> graph
    \<Rightarrow> error + (key \<times> key \<times> key \<times> graph)" where
  "constGroup_loop p [] first prev lst g = Inr (first, prev, lst, g)"
| "constGroup_loop p (s # ss) first prev lst g =
     (case specNames s of
        Inl e \<Rightarrow> Inl e
      | Inr names \<Rightarrow>
          (case constRing p names first prev lst g of
             Inl e \<Rightarrow> Inl e
           | Inr (first', prev', lst', g') \<Rightarrow> constGroup_loop p ss first' prev' lst' g'))"

definition constGroup :: "pass \<Rightarrow> spec list \<Rightarrow> step" where
  "constGroup p grp g =
     (case constGroup_loop p grp None None None g of
        Inl e \<Rightarrow> Inl e
      | Inr (first, prev, lst, g') \<Rightarrow>
          if first \<noteq> None \<and> first \<noteq> lst then use p first lst g' else Inr g')"

text \<open>\<^verbatim>\<open>isNoCopyType\<close>\<close>

definition isNoCopyType :: "gotype \<Rightarrow> bool" where
  "isNoCopyType typ = (case Underlying typ of
      Struct _ fs \<Rightarrow>
        if length fs \<noteq> 0 then False
        else (case typ of
                Named _ methods _ \<Rightarrow>
                  if length methods \<noteq> 1 then False
                  else (case methods ! 0 of
                          (meth, nparams, nresults) \<Rightarrow>
                            if oname meth \<noteq> ''Lock'' then False
                            else if nparams \<noteq> 0 \<or> nresults \<noteq> 0 then False
                            else True)
              | _ \<Rightarrow> False)
    | _ \<Rightarrow> False)"

lemma size_Underlying: "size (Underlying t) \<le> size t"
  by (cases t) auto

lemma size_Dereference: "size (Dereference t) \<le> size t"
  by (cases t) (auto simp: Dereference_def split: gotype.splits)

function hasExportedField :: "(nat \<Rightarrow> bool) \<Rightarrow> nat list \<Rightarrow> gotype \<Rightarrow> bool \<times> nat list"
  and hasExportedField_loop ::
    "(nat \<Rightarrow> bool) \<Rightarrow> nat list \<Rightarrow> (object \<times> gotype) list \<Rightarrow> bool \<times> nat list" where
  "hasExportedField upper visited T =
     (case Underlying (Dereference T) of
        Struct sid fs \<Rightarrow>
          if sid \<in> set visited then (False, visited)
          else hasExportedField_loop upper (sid # visited) fs
      | _ \<Rightarrow> (False, visited))"
| "hasExportedField_loop upper visited [] = (False, visited)"
| "hasExportedField_loop upper visited (f # fs) =
     (if IsExported upper (oname (fst f)) then (True, visited)
      else if oembedded (fst f)
      then (case hasExportedField upper visited (snd f) of
              (True, visited') \<Rightarrow> (True, visited')
            | (False, visited') \<Rightarrow> hasExportedField_loop upper visited' fs)
      else hasExportedField_loop upper visited fs)"
  by pat_completeness auto
termination
proof (relation "measure (\<lambda>x. case x of
          Inl (upper, visited, T) \<Rightarrow> 2 * size T + 1
        | Inr (upper, visited, fs) \<Rightarrow> 2 * size_list (\<lambda>f. size (snd f)) fs)", goal_cases)
  case 1
  show ?case by simp
next
  case (2 upper visited T sid fs)
  have "size (Underlying (Dereference T)) \<le> size T"
    using size_Underlying [of "Dereference T"] size_Dereference [of T] by simp
  with 2 have "size (Struct sid fs) \<le> size T" by simp
  moreover have "size_list (\<lambda>f. size (snd f)) fs \<le> size (Struct sid fs)"
    by (induction fs) (auto simp: size_prod_simp)
  ultimately show ?case by simp
next
  case 3
  show ?case by (simp (no_asm))
next
  case 4
  show ?case by (simp (no_asm))
next
  case 5
  show ?case by (simp (no_asm))
qed



datatype emode = ERead | EWrite | ENamedType | EEmbedded | EUnaryOperand
datatype fmode = FParam | FStruct | FInterface | FNamed "gotype option"
datatype smode = SStmt | SCaseClause | SCommClause | SComm
datatype spmode = SpConst | SpType | SpVar

definition modes :: "emode \<Rightarrow> step \<Rightarrow> step \<Rightarrow> step \<Rightarrow> step \<Rightarrow> step" where
  "modes m r w e u = (case m of
      ERead \<Rightarrow> r | ENamedType \<Rightarrow> r | EWrite \<Rightarrow> w | EEmbedded \<Rightarrow> e | EUnaryOperand \<Rightarrow> u)"

definition rd :: "emode \<Rightarrow> step \<Rightarrow> step" where
  "rd m r = modes m r (fail UnhandledCase) ok (fail FailedTypeAssertion)"

definition smodes :: "smode \<Rightarrow> step \<Rightarrow> step \<Rightarrow> step" where
  "smodes m s c = (case m of
      SStmt \<Rightarrow> s | SCaseClause \<Rightarrow> fail FailedTypeAssertion
    | SCommClause \<Rightarrow> fail FailedTypeAssertion | SComm \<Rightarrow> c)"

definition st :: "smode \<Rightarrow> step \<Rightarrow> step" where
  "st m s = smodes m s (fail UnhandledCase)"

definition namedStep :: "pass \<Rightarrow> ident \<Rightarrow> key \<Rightarrow> step \<Rightarrow> step" where
  "namedStep p n by r = seqE [see (ObjectOf n) by, use p (ObjectOf n) by, r]"

primrec walk_expr :: "pass \<Rightarrow> expr \<Rightarrow> emode \<Rightarrow> key \<Rightarrow> step"
  and walk_field :: "pass \<Rightarrow> field \<Rightarrow> fmode \<Rightarrow> key \<Rightarrow> step"
  and walk_stmt :: "pass \<Rightarrow> stmt \<Rightarrow> smode \<Rightarrow> key \<Rightarrow> step"
  and walk_spec :: "pass \<Rightarrow> spec \<Rightarrow> spmode \<Rightarrow> key \<Rightarrow> step"
  and walk_decl :: "pass \<Rightarrow> decl \<Rightarrow> key \<Rightarrow> step"
where
  "walk_expr p NilExpr m by = modes m ok ok ok (fail FailedTypeAssertion)"
| "walk_expr p (Ident i) m by =
     modes m (use p (ObjectOf i) by)
       (case ObjectOf i of
          None \<Rightarrow> ok
        | Some ob \<Rightarrow>
            if HasSuffix (ofile ob) ''_test.go''
            then (if isGlobal ob then use p (Some ob) by else ok)
            else ok)
       ok (fail FailedTypeAssertion)"
| "walk_expr p BasicLit m by = rd m ok"
| "walk_expr p (SliceExpr x lo hi mx) m by =
     rd m (seqE [walk_expr p x ERead by, walk_expr p lo ERead by,
                 walk_expr p hi ERead by, walk_expr p mx ERead by])"
| "walk_expr p (UnaryExpr x) m by =
     modes m (walk_expr p x ERead by) (fail UnhandledCase) ok (walk_expr p x ERead by)"
| "walk_expr p (ParenExpr x) m by =
     modes m (walk_expr p x ERead by) (walk_expr p x EWrite by) ok (fail FailedTypeAssertion)"
| "walk_expr p (ArrayType len elt) m by =
     rd m (seqE [walk_expr p len ERead by, walk_expr p elt ERead by])"
| "walk_expr p (SelectorExpr x sel tsel) m by =
     modes m
       (seqE [walk_expr p x ERead by,
              (case tsel of None \<Rightarrow> ok | Some s \<Rightarrow> readSelection p s by)])
       (seqE [walk_expr p x ERead by,
              (case tsel of None \<Rightarrow> ok | Some s \<Rightarrow> readSelection p s by)])
       (walk_expr p x ERead by)
       (fail FailedTypeAssertion)"
| "walk_expr p (IndexExpr x i) m by =
     modes m
       (seqE [walk_expr p x ERead by, walk_expr p i ERead by])
       (seqE [walk_expr p x ERead by, walk_expr p i ERead by])
       (seqE [walk_expr p i ERead by, walk_expr p x EEmbedded by])
       (fail FailedTypeAssertion)"
| "walk_expr p (IndexListExpr x is) m by =
     modes m (fail UnhandledCase) (fail UnhandledCase) (walk_expr p x EEmbedded by)
       (fail FailedTypeAssertion)"
| "walk_expr p (BinaryExpr x y) m by =
     rd m (seqE [walk_expr p x ERead by, walk_expr p y ERead by])"
| "walk_expr p (CompositeLit typ elts ty) m by =
     rd m (seqE [walk_expr p typ ERead by,
                 compositeLitFields p ty elts by,
                 seqE (map (\<lambda>e. walk_expr p e ERead by) elts)])"
| "walk_expr p (KeyValueExpr k v) m by =
     rd m (seqE [walk_expr p k ERead by, walk_expr p v ERead by])"
| "walk_expr p (StarExpr x) m by =
     modes m (walk_expr p x ERead by) (walk_expr p x ERead by) (walk_expr p x EEmbedded by)
       (fail FailedTypeAssertion)"
| "walk_expr p (MapType k v) m by =
     rd m (seqE [walk_expr p k ERead by, walk_expr p v ERead by])"
| "walk_expr p (FuncLit typ body) m by =
     rd m (seqE [walk_expr p typ ERead by, seqE (map (\<lambda>s. walk_stmt p s SStmt by) body)])"
| "walk_expr p (FuncType tparams params results) m by =
     rd m (seqE [seqE (map (\<lambda>f. walk_field p f FParam by) tparams),
                 seqE (map (\<lambda>f. walk_field p f FParam by) params),
                 seqE (map (\<lambda>f. walk_field p f FParam by) results)])"
| "walk_expr p (ChanType v) m by = rd m (walk_expr p v ERead by)"
| "walk_expr p (StructType flds ty) m by =
     (case m of
        ERead \<Rightarrow> seqE (map (\<lambda>f. walk_field p f FStruct by) flds)
      | ENamedType \<Rightarrow> seqE (map (\<lambda>f. walk_field p f (FNamed ty) by) flds)
      | EWrite \<Rightarrow> fail UnhandledCase
      | EEmbedded \<Rightarrow> ok
      | EUnaryOperand \<Rightarrow> fail FailedTypeAssertion)"
| "walk_expr p (TypeAssertExpr x t) m by =
     rd m (seqE [walk_expr p x ERead by, walk_expr p t ERead by])"
| "walk_expr p (InterfaceType methods ty) m by =
     rd m (seqE [registerInterface ty methods,
                 seqE (map (\<lambda>f. walk_field p f FInterface by) methods)])"
| "walk_expr p (Ellipsis elt) m by = rd m (walk_expr p elt ERead by)"
| "walk_expr p (CallExpr fn args ellipsis dst src) m by =
     rd m (seqE [walk_expr p fn ERead by,
                 seqE (map (\<lambda>a. walk_expr p a ERead by) args),
                 conversion p args ellipsis dst src by])"
| "walk_expr p BadExpr m by = rd m (fail UnhandledCase)"
| "walk_field p (Field names ftype) m by =
     (case m of
        FParam \<Rightarrow>
          if names = [] then walk_expr p ftype ERead by
          else seqE (map (\<lambda>n. namedStep p n by (walk_expr p ftype ERead (ObjectOf n))) names)
      | FStruct \<Rightarrow>
          if names = []
          then (case embeddedField_obj ftype of
                  Inl e \<Rightarrow> fail e
                | Inr fv \<Rightarrow>
                    seqE [walk_expr p ftype EEmbedded (Some fv),
                          embeddedField_type p ftype fv,
                          use p (Some fv) by])
          else seqE (map (\<lambda>n. namedStep p n by (walk_expr p ftype ERead (ObjectOf n))) names)
      | FInterface \<Rightarrow>
          (case names of
             [] \<Rightarrow> walk_expr p ftype ERead by
           | [n] \<Rightarrow> namedStep p n by (walk_expr p ftype ERead (ObjectOf n))
           | _ \<Rightarrow> fail UnexpectedNames)
      | FNamed sty \<Rightarrow>
          (case sty of
             Some (Struct sid _) \<Rightarrow>
               if names = []
               then (case embeddedField_obj ftype of
                       Inl e \<Rightarrow> fail e
                     | Inr fieldVar \<Rightarrow>
                         seqE [walk_expr p ftype EEmbedded (Some fieldVar),
                               embeddedField_type p ftype fieldVar,
                               (if IsExported (Upper p) (oname fieldVar)
                                then use p (Some fieldVar) by else ok),
                               (if fst (hasExportedField (Upper p) [sid] (ObjType p fieldVar))
                                then use p (Some fieldVar) by else ok)])
               else seqE (map (\<lambda>n.
                      seqE [see (ObjectOf n) by,
                            walk_expr p ftype ERead (ObjectOf n),
                            (if Name n = ''_'' then use p (ObjectOf n) by
                             else if IsExported (Upper p) (Name n) then use p (ObjectOf n) by
                             else ok),
                            (case ObjectOf n of
                               None \<Rightarrow> fail NilDereference
                             | Some ob \<Rightarrow>
                                 if isNoCopyType (ObjType p ob) then use p (Some ob) by
                                 else ok)]) names)
           | _ \<Rightarrow> fail FailedTypeAssertion))"
| "walk_stmt p NilStmt m by = smodes m ok ok"
| "walk_stmt p (LabeledStmt s) m by = st m (walk_stmt p s SStmt by)"
| "walk_stmt p (AssignStmt tok lhs rhs) m by =
     smodes m
       (\<lambda>g. case (if tok = DEFINE_tok then assignDefine lhs by False g else Inr (False, g)) of
               Inl e \<Rightarrow> Inl e
             | Inr (deferred, g1) \<Rightarrow>
                 recovered deferred
                   (seqE [seqE (map (\<lambda>e. walk_expr p e EWrite by) lhs),
                          seqE (map (\<lambda>e. walk_expr p e ERead by) rhs)] g1))
       (seqE [seqE (map (\<lambda>e. walk_expr p e EWrite by) lhs),
              seqE (map (\<lambda>e. walk_expr p e ERead by) rhs)])"
| "walk_stmt p (BlockStmt ss) m by = st m (seqE (map (\<lambda>s. walk_stmt p s SStmt by) ss))"
| "walk_stmt p BranchStmt m by = st m ok"
| "walk_stmt p (DeclStmt d) m by = st m (walk_decl p d by)"
| "walk_stmt p (DeferStmt c) m by = st m (walk_expr p c ERead by)"
| "walk_stmt p (ExprStmt x) m by =
     smodes m (walk_expr p x ERead by) (walk_expr p x EUnaryOperand by)"
| "walk_stmt p (ForStmt ini cond post body) m by =
     st m (seqE [walk_stmt p ini SStmt by, walk_expr p cond ERead by,
                 walk_stmt p post SStmt by,
                 seqE (map (\<lambda>s. walk_stmt p s SStmt by) body)])"
| "walk_stmt p (GoStmt c) m by = st m (walk_expr p c ERead by)"
| "walk_stmt p (IfStmt ini cond body els) m by =
     st m (seqE [walk_stmt p ini SStmt by, walk_expr p cond ERead by,
                 seqE (map (\<lambda>s. walk_stmt p s SStmt by) body),
                 walk_stmt p els SStmt by])"
| "walk_stmt p (IncDecStmt x) m by = st m (walk_expr p x EWrite by)"
| "walk_stmt p (RangeStmt k v x body) m by =
     st m (seqE [walk_expr p k EWrite by, walk_expr p v EWrite by, walk_expr p x ERead by,
                 seqE (map (\<lambda>s. walk_stmt p s SStmt by) body)])"
| "walk_stmt p (ReturnStmt rs) m by = st m (seqE (map (\<lambda>e. walk_expr p e ERead by) rs))"
| "walk_stmt p (SelectStmt cs) m by =
     st m (seqE (map (\<lambda>c. walk_stmt p c SCommClause by) cs))"
| "walk_stmt p (SendStmt c v) m by =
     smodes m (seqE [walk_expr p c ERead by, walk_expr p v ERead by])
              (seqE [walk_expr p c ERead by, walk_expr p v ERead by])"
| "walk_stmt p (SwitchStmt ini tag cs) m by =
     st m (seqE [walk_stmt p ini SStmt by, walk_expr p tag ERead by,
                 seqE (map (\<lambda>c. walk_stmt p c SCaseClause by) cs)])"
| "walk_stmt p (TypeSwitchStmt ini assign cs) m by =
     st m (seqE [walk_stmt p ini SStmt by, walk_stmt p assign SStmt by,
                 seqE (map (\<lambda>c. walk_stmt p c SCaseClause by) cs)])"
| "walk_stmt p EmptyStmt m by = st m ok"
| "walk_stmt p (CaseClause es body) m by =
     (case m of
        SCaseClause \<Rightarrow>
          seqE [seqE (map (\<lambda>e. walk_expr p e ERead by) es),
                seqE (map (\<lambda>s. walk_stmt p s SStmt by) body)]
      | SCommClause \<Rightarrow> fail FailedTypeAssertion
      | _ \<Rightarrow> fail UnhandledCase)"
| "walk_stmt p (CommClause comm body) m by =
     (case m of
        SCommClause \<Rightarrow>
          seqE [walk_stmt p comm SComm by,
                seqE (map (\<lambda>s. walk_stmt p s SStmt by) body)]
      | SCaseClause \<Rightarrow> fail FailedTypeAssertion
      | _ \<Rightarrow> fail UnhandledCase)"
| "walk_stmt p BadStmt m by = st m (fail UnhandledCase)"
| "walk_spec p (ValueSpec brk names typ vals) m by =
     (case m of
        SpConst \<Rightarrow>
          seqE [assert (length vals = 0 \<or> length vals = length names),
                seqE (map (\<lambda>(i, n).
                  seqE [see (ObjectOf n) by,
                        walk_expr p typ ERead (ObjectOf n),
                        (if length vals \<noteq> 0
                         then (if i < length vals
                               then (map (\<lambda>v. walk_expr p v ERead) vals ! i) (ObjectOf n)
                               else fail IndexOutOfRange)
                         else ok),
                        (if Name n = ''_'' then use p (ObjectOf n) by
                         else if IsExported (Upper p) (Name n)
                         then (case ObjectOf n of
                                 None \<Rightarrow> fail NilDereference
                               | Some ob \<Rightarrow> if isGlobal ob then use p (Some ob) None else ok)
                         else ok)]) (enumerate 0 names))]
      | SpVar \<Rightarrow>
          seqE (map (\<lambda>(i, n).
            seqE [see (ObjectOf n) by,
                  walk_expr p typ ERead (ObjectOf n),
                  (if length names = length vals
                   then (if i < length vals
                         then (map (\<lambda>v. walk_expr p v ERead) vals ! i) (ObjectOf n)
                         else fail IndexOutOfRange)
                   else if length vals \<noteq> 0
                   then (if length vals \<noteq> 1 then fail PanicAtPosition
                         else (map (\<lambda>v. walk_expr p v ERead) vals ! 0) (ObjectOf n))
                   else ok),
                  (if IsExported (Upper p) (Name n)
                   then (case ObjectOf n of
                           None \<Rightarrow> fail NilDereference
                         | Some ob \<Rightarrow> if isGlobal ob then use p (Some ob) None else ok)
                   else ok),
                  (if Name n = ''_'' then use p (ObjectOf n) by else ok)]) (enumerate 0 names))
      | SpType \<Rightarrow> fail FailedTypeAssertion)"
| "walk_spec p (TypeSpec name tparams alias typ) m by =
     (case m of
        SpType \<Rightarrow>
          (case ObjectOf name of
             None \<Rightarrow> fail FailedTypeAssertion
           | Some ob \<Rightarrow>
               if oclass ob \<noteq> TypeName then fail FailedTypeAssertion
               else
                 seqE [see (Some ob) by,
                       (\<lambda>g. Inr (if \<not> alias then g\<lparr>namedTypes := namedTypes g @ [ob]\<rparr> else g)),
                       (if IsExported (Upper p) (Name name) \<and> isGlobal ob
                        then use p (ObjectOf name) None else ok),
                       seqE (map (\<lambda>f. walk_field p f FParam (Some ob)) tparams),
                       walk_expr p typ ENamedType (Some ob),
                       (if Name name = ''_'' then use p (Some ob) by else ok)])
      | _ \<Rightarrow> fail FailedTypeAssertion)"
| "walk_spec p ImportSpec m by = fail FailedTypeAssertion"
| "walk_decl p (GenDecl tok specs) by = (case tok of
      IMPORT_tok \<Rightarrow> ok
    | CONST_tok \<Rightarrow>
        seqE [seqE (map (\<lambda>s. walk_spec p s SpConst by) specs),
              seqE (map (constGroup p) (GroupSpecs specs))]
    | TYPE_tok \<Rightarrow> seqE (map (\<lambda>s. walk_spec p s SpType by) specs)
    | VAR_tok \<Rightarrow> seqE (map (\<lambda>s. walk_spec p s SpVar by) specs)
    | _ \<Rightarrow> fail UnexpectedToken)"
| "walk_decl p (FuncDecl name recv ftype body doc) by =
     (case ObjectOf name of
        None \<Rightarrow> fail FailedTypeAssertion
      | Some ob0 \<Rightarrow>
          if oclass ob0 \<noteq> Func then fail FailedTypeAssertion
          else
            seqE [see (Some (origin ob0)) by,
                  (if IsExported (Upper p) (Name name)
                   then (if recv = [] then use p (Some (origin ob0)) None else ok)
                   else if Name name = ''init'' then use p (Some (origin ob0)) None
                   else if Name name = ''main'' \<and> pkg_name (Pkg p) = ''main''
                   then use p (Some (origin ob0)) None
                   else if pkg_path (Pkg p) = ''runtime'' \<and> runtimeFuncs p (Name name)
                   then use p (Some (origin ob0)) None
                   else ok),
                  seqE (map (\<lambda>f. walk_field p f FParam (Some (origin ob0))) recv),
                  walk_expr p ftype ERead (Some (origin ob0)),
                  seqE (map (\<lambda>s. walk_stmt p s SStmt (Some (origin ob0))) body),
                  (if Name name = ''_'' then use p (Some (origin ob0)) None else ok),
                  seqE (map (\<lambda>cmt. if HasPrefix cmt ''//go:cgo_export_''
                                    then use p (Some (origin ob0)) None else ok) doc)])"
| "walk_decl p BadDecl by = fail UnhandledCase"


text \<open>
  The functions of the builder. The source has several functions for one syntactic category
  (\<^verbatim>\<open>read\<close>, \<^verbatim>\<open>write\<close>, \<^verbatim>\<open>namedType\<close> and \<^verbatim>\<open>embeddedField\<close>
  all take an expression); \<open>walk_expr\<close>, \<open>walk_field\<close>, \<open>walk_stmt\<close>, \<open>walk_spec\<close> and
  \<open>walk_decl\<close> define them together, by primitive recursion over the syntax tree, with a
  parameter that says which function of the source is running. The source's functions are
  the instances below.
\<close>

definition read :: "pass \<Rightarrow> expr \<Rightarrow> key \<Rightarrow> step" where
  "read p e by = walk_expr p e ERead by"

definition write' :: "pass \<Rightarrow> expr \<Rightarrow> key \<Rightarrow> step" where
  "write' p e by = walk_expr p e EWrite by"

definition readFieldList :: "pass \<Rightarrow> field list \<Rightarrow> key \<Rightarrow> step" where
  "readFieldList p flds by = seqE (map (\<lambda>f. walk_field p f FParam by) flds)"

definition readSelectorExpr :: "pass \<Rightarrow> expr \<Rightarrow> selection option \<Rightarrow> key \<Rightarrow> step" where
  "readSelectorExpr p x tsel by =
     seqE [read p x by, (case tsel of None \<Rightarrow> ok | Some s \<Rightarrow> readSelection p s by)]"

definition embeddedField :: "pass \<Rightarrow> expr \<Rightarrow> step" where
  "embeddedField p e = (case embeddedField_obj e of
      Inl err \<Rightarrow> fail err
    | Inr ob \<Rightarrow> seqE [walk_expr p e EEmbedded (Some ob), embeddedField_type p e ob])"

definition stmt :: "pass \<Rightarrow> stmt \<Rightarrow> key \<Rightarrow> step" where
  "stmt p s by = walk_stmt p s SStmt by"

definition block :: "pass \<Rightarrow> stmt list \<Rightarrow> key \<Rightarrow> step" where
  "block p ss by = seqE (map (\<lambda>s. stmt p s by) ss)"

definition decl :: "pass \<Rightarrow> decl \<Rightarrow> key \<Rightarrow> step" where
  "decl p d by = walk_decl p d by"

definition namedType :: "pass \<Rightarrow> object \<Rightarrow> expr \<Rightarrow> step" where
  "namedType p typ spec = walk_expr p spec ENamedType (Some typ)"

section \<open>The analysis of a unit\<close>

text \<open>\<^verbatim>\<open>strings.Fields\<close> and \<^verbatim>\<open>strings.Split\<close> of the Go library, on ASCII text.\<close>

definition isSpace :: "char \<Rightarrow> bool" where
  "isSpace c = (of_char c \<in> {9, 10, 11, 12, 13, 32 :: nat})"

fun Fields_loop :: "string \<Rightarrow> string \<Rightarrow> string list" where
  "Fields_loop [] cur = (if cur = [] then [] else [cur])"
| "Fields_loop (c # cs) cur =
     (if isSpace c then (if cur = [] then Fields_loop cs [] else cur # Fields_loop cs [])
      else Fields_loop cs (cur @ [c]))"

definition Fields :: "string \<Rightarrow> string list" where
  "Fields s = Fields_loop s []"

fun Split_loop :: "char \<Rightarrow> string \<Rightarrow> string \<Rightarrow> string list" where
  "Split_loop sep [] cur = [cur]"
| "Split_loop sep (c # cs) cur =
     (if c = sep then cur # Split_loop sep cs [] else Split_loop sep cs (cur @ [c]))"

definition Split :: "string \<Rightarrow> char \<Rightarrow> string list" where
  "Split s sep = Split_loop sep s []"

text \<open>The parts of \<^verbatim>\<open>graph.entry\<close>, in the order of the source.\<close>

definition linknames :: "pass \<Rightarrow> step" where
  "linknames p =
     seqE (map (\<lambda>c.
        if HasPrefix c ''//go:linkname ''
        then (if length (Fields c) = 3
              then (case ScopeLookup p (Fields c ! 1) of
                      None \<Rightarrow> ok
                    | Some ob \<Rightarrow> use p (Some ob) None)
              else ok)
        else ok) (concat (map Comments (Files p))))"

definition decls :: "pass \<Rightarrow> step" where
  "decls p = seqE (map (\<lambda>d. decl p d None) (concat (map Decls (Files p))))"

definition isInterface :: "gotype \<Rightarrow> bool" where
  "isInterface t = (case t of Interface _ \<Rightarrow> True | _ \<Rightarrow> False)"

definition processMethodSet :: "pass \<Rightarrow> object \<Rightarrow> selection list \<Rightarrow> step" where
  "processMethodSet p named ms =
     seqE [seqE (map (\<lambda>m. if IsExported (Upper p) (oname (Obj m))
                          then readSelection p m (Some named) else ok) ms),
           (if \<not> isInterface (Underlying (ObjType p named))
            then (\<lambda>g. seqE (map (\<lambda>iface.
                    case implements p (ObjType p named) iface ms of
                      None \<Rightarrow> ok
                    | Some sels \<Rightarrow> seqE (map (\<lambda>sel. readSelection p sel (Some named)) sels))
                    (interfaceTypes g)) g)
            else ok)]"

definition methodSets :: "pass \<Rightarrow> step" where
  "methodSets p g =
     seqE (map (\<lambda>named.
        seqE [processMethodSet p named (MethodSet p (ObjType p named)),
              processMethodSet p named (MethodSet p (Pointer (ObjType p named)))])
        (namedTypes g)) g"

definition ignoreKeys :: "pass \<Rightarrow> (string \<times> int) list" where
  "ignoreKeys p =
     concat (map (\<lambda>d.
        if Command d \<noteq> ''ignore'' \<and> Command d \<noteq> ''file-ignore'' then []
        else if length (Arguments d) = 0 then []
        else if ''U1000'' \<in> set (Split (hd (Arguments d)) (CHR '',''))
        then [(dir_file d, if Command d = ''ignore'' then dir_line d else - 1)]
        else []) (Directives p))"

definition ignoreObject :: "pass \<Rightarrow> object \<Rightarrow> step" where
  "ignoreObject p ob =
     seqE [use p (Some ob) None,
           (if oclass ob = TypeName
            then (if IsAlias p ob \<and>
                     (case ObjType p ob of Named tn _ _ \<Rightarrow> opkg tn \<noteq> opkg ob | _ \<Rightarrow> False)
                  then ok
                  else seqE [(case ObjType p ob of
                                Named _ methods _ \<Rightarrow>
                                  seqE (map (\<lambda>m. use p (Some (fst m)) None) methods)
                              | _ \<Rightarrow> ok),
                             (case Underlying (ObjType p ob) of
                                Struct _ fs \<Rightarrow> seqE (map (\<lambda>f. use p (Some (fst f)) None) fs)
                              | _ \<Rightarrow> ok)])
            else ok)]"

text \<open>
  The loop over \<^verbatim>\<open>g.Nodes\<close> adds nodes to the map it ranges over; whether Go then
  visits the new nodes is unspecified. The model visits the nodes present when the loop
  starts.
\<close>

definition ignores :: "pass \<Rightarrow> step" where
  "ignores p g =
     (if length (ignoreKeys p) > 0
      then seqE (map (\<lambda>ob.
             if (ofile ob, oline ob) \<in> set (ignoreKeys p) \<or> (ofile ob, - 1) \<in> set (ignoreKeys p)
             then ignoreObject p ob else ok) (map fst (Nodes g))) g
      else Inr g)"

definition entry :: "pass \<Rightarrow> step" where
  "entry p = seqE [linknames p, decls p, methodSets p, ignores p]"


section \<open>Reachability and quieting\<close>

definition unseen_count :: "graph \<Rightarrow> nat" where
  "unseen_count g =
     (if seen (Root g) then 0 else 1) + length (filter (\<lambda>kn. \<not> seen (snd kn)) (Nodes g))"

definition mark_seen :: "node \<Rightarrow> node" where
  "mark_seen n = n\<lparr>seen := True\<rparr>"

definition mark_quiet :: "node \<Rightarrow> node" where
  "mark_quiet n = n\<lparr>quiet := True\<rparr>"

lemma filter_upd_le:
  "length (filter (\<lambda>kn. \<not> seen (snd kn))
     (map (\<lambda>(ob', n). if ob' = ob then (ob', mark_seen n) else (ob', n)) xs))
   \<le> length (filter (\<lambda>kn. \<not> seen (snd kn)) xs)"
  by (induction xs) (auto simp: mark_seen_def split: if_splits)

lemma filter_upd_less:
  "map_of xs ob = Some n \<Longrightarrow> \<not> seen n \<Longrightarrow>
   length (filter (\<lambda>kn. \<not> seen (snd kn))
     (map (\<lambda>(ob', n). if ob' = ob then (ob', mark_seen n) else (ob', n)) xs))
   < length (filter (\<lambda>kn. \<not> seen (snd kn)) xs)"
proof (induction xs)
  case Nil
  then show ?case by simp
next
  case (Cons a xs)
  obtain k m where a: "a = (k, m)" by (cases a)
  show ?case
  proof (cases "k = ob")
    case True
    with Cons.prems a have "m = n" by simp
    with True a Cons.prems show ?thesis
      using filter_upd_le [of ob xs] by (simp add: mark_seen_def le_imp_less_Suc)
  next
    case False
    with Cons a show ?thesis by simp
  qed
qed

lemma unseen_count_mark:
  "get g k = Some n \<Longrightarrow> \<not> seen n \<Longrightarrow> unseen_count (upd k mark_seen g) < unseen_count g"
proof (cases k)
  case None
  assume "get g k = Some n" "\<not> seen n"
  with None show ?thesis by (simp add: get_def upd_def unseen_count_def mark_seen_def)
next
  case (Some ob)
  assume "get g k = Some n" "\<not> seen n"
  with Some show ?thesis
    using filter_upd_less [of "Nodes g" ob n]
    by (simp add: get_def upd_def unseen_count_def)
qed

text \<open>
  \<^verbatim>\<open>graph.color\<close>. The recursion of the source runs over the call stack; here the
  stack is explicit: the list holds the nodes that the active loops over \<^verbatim>\<open>root.uses\<close>
  have still to visit, in the order in which the source visits them.
\<close>

function color_stack :: "key list \<Rightarrow> graph \<Rightarrow> graph" where
  "color_stack [] g = g"
| "color_stack (k # ks) g = (case get g k of
      None \<Rightarrow> color_stack ks g
    | Some n \<Rightarrow>
        if seen n then color_stack ks g
        else color_stack (uses n @ ks) (upd k mark_seen g))"
  by pat_completeness auto
termination
  by (relation "measures [\<lambda>(ks, g). unseen_count g, \<lambda>(ks, g). length ks]")
     (auto simp: unseen_count_mark)

definition color :: "key \<Rightarrow> graph \<Rightarrow> graph" where
  "color root g = color_stack [root] g"

text \<open>
  The closure \<^verbatim>\<open>quieten\<close> of \<^verbatim>\<open>graph.results\<close>. It has no guard against
  revisiting a node, so it need not return when the owns relation has a cycle: the result is
  an option, and \<open>None\<close> stands for a run that does not return.
\<close>

partial_function (option) quieten_stack :: "key list \<Rightarrow> graph \<Rightarrow> graph option" where
  "quieten_stack ks g = (case ks of
      [] \<Rightarrow> Some g
    | k # ks' \<Rightarrow>
        (case get g k of
           None \<Rightarrow> quieten_stack ks' g
         | Some n \<Rightarrow> quieten_stack (owns n @ ks') (upd k mark_quiet g)))"

definition quieten :: "key \<Rightarrow> graph \<Rightarrow> graph option" where
  "quieten k g = quieten_stack [k] g"

fun quieten_unseen :: "(object \<times> node) list \<Rightarrow> graph \<Rightarrow> graph option" where
  "quieten_unseen [] g = Some g"
| "quieten_unseen (kn # ns) g =
     (if seen (snd kn) then quieten_unseen ns g
      else case quieten_stack (owns (snd kn)) g of
             None \<Rightarrow> None
           | Some g' \<Rightarrow> quieten_unseen ns g')"

definition reportable :: "pass \<Rightarrow> object \<Rightarrow> bool" where
  "reportable p ob =
     (\<not> (oclass ob = Var \<and> oname ob = [] \<and> oisfield ob) \<and>
      \<not> (oclass ob = Var \<and> \<not> oisfield ob \<and> \<not> oglobal ob) \<and>
      opkg ob = Some (Pkg p))"

fun classify :: "pass \<Rightarrow> (object \<times> node) list \<Rightarrow> object list \<times> object list
    \<Rightarrow> error + (object list \<times> object list)" where
  "classify p [] acc = Inr acc"
| "classify p (kn # ns) acc = (case obj (snd kn) of
      None \<Rightarrow> Inl NilDereference
    | Some ob \<Rightarrow>
        if oclass ob = Var \<and> oname ob = [] \<and> oisfield ob then classify p ns acc
        else if oclass ob = Var \<and> \<not> oisfield ob \<and> \<not> oglobal ob then classify p ns acc
        else if opkg ob \<noteq> Some (Pkg p) then classify p ns acc
        else if seen (snd kn) then classify p ns (fst acc @ [ob], snd acc)
        else if \<not> quiet (snd kn) then classify p ns (fst acc, snd acc @ [ob])
        else classify p ns acc)"

text \<open>\<^verbatim>\<open>graph.results\<close>\<close>

definition results :: "pass \<Rightarrow> graph \<Rightarrow> (error + (object list \<times> object list)) option" where
  "results p g =
     (let g1 = color None g in
      case quieten_unseen (Nodes g1) g1 of
        None \<Rightarrow> None
      | Some g2 \<Rightarrow> Some (classify p (Nodes g2) ([], [])))"

section \<open>Properties of the store\<close>

lemma map_of_upd:
  "map_of (map (\<lambda>(ob', n). if ob' = ob then (ob', f n) else (ob', n)) xs) k =
   (if k = ob then map_option f (map_of xs k) else map_of xs k)"
  by (induction xs) auto

lemma get_upd:
  "get (upd k f g) k' = (if k' = k then map_option f (get g k) else get g k')"
  by (cases k; cases k') (auto simp: get_def upd_def map_of_upd)

lemma keys_upd: "map fst (Nodes (upd k f g)) = map fst (Nodes g)"
  by (cases k) (auto simp: upd_def split: prod.splits)

definition uses_rel :: "graph \<Rightarrow> (key \<times> key) set" where
  "uses_rel g = {(a, b). \<exists>n. get g a = Some n \<and> b \<in> set (uses n)}"

definition owns_rel :: "graph \<Rightarrow> (key \<times> key) set" where
  "owns_rel g = {(a, b). \<exists>n. get g a = Some n \<and> b \<in> set (owns n)}"

definition is_seen :: "graph \<Rightarrow> key \<Rightarrow> bool" where
  "is_seen g k = (case get g k of None \<Rightarrow> False | Some n \<Rightarrow> seen n)"

definition is_quiet :: "graph \<Rightarrow> key \<Rightarrow> bool" where
  "is_quiet g k = (case get g k of None \<Rightarrow> False | Some n \<Rightarrow> quiet n)"

definition has_node :: "graph \<Rightarrow> key \<Rightarrow> bool" where
  "has_node g k = (get g k \<noteq> None)"

lemma uses_rel_mark_seen [simp]: "uses_rel (upd k mark_seen g) = uses_rel g"
  by (auto simp: uses_rel_def get_upd mark_seen_def split: if_splits)

lemma owns_rel_mark_seen [simp]: "owns_rel (upd k mark_seen g) = owns_rel g"
  by (auto simp: owns_rel_def get_upd mark_seen_def split: if_splits)

lemma uses_rel_mark_quiet [simp]: "uses_rel (upd k mark_quiet g) = uses_rel g"
  by (auto simp: uses_rel_def get_upd mark_quiet_def split: if_splits)

lemma owns_rel_mark_quiet [simp]: "owns_rel (upd k mark_quiet g) = owns_rel g"
  by (auto simp: owns_rel_def get_upd mark_quiet_def split: if_splits)

lemma has_node_upd [simp]: "has_node (upd k f g) k' = has_node g k'"
  by (auto simp: has_node_def get_upd)

lemma is_seen_mark_seen:
  "is_seen (upd k mark_seen g) k' = (is_seen g k' \<or> (k' = k \<and> has_node g k))"
  by (auto simp: is_seen_def has_node_def get_upd mark_seen_def split: option.splits)

lemma is_quiet_mark_seen [simp]: "is_quiet (upd k mark_seen g) k' = is_quiet g k'"
  by (auto simp: is_quiet_def get_upd mark_seen_def split: option.splits)

lemma is_quiet_mark_quiet:
  "is_quiet (upd k mark_quiet g) k' = (is_quiet g k' \<or> (k' = k \<and> has_node g k))"
  by (auto simp: is_quiet_def has_node_def get_upd mark_quiet_def split: option.splits)

lemma is_seen_mark_quiet [simp]: "is_seen (upd k mark_quiet g) k' = is_seen g k'"
  by (auto simp: is_seen_def get_upd mark_quiet_def split: option.splits)

definition node_obj :: "graph \<Rightarrow> key \<Rightarrow> object option" where
  "node_obj g k = (case get g k of None \<Rightarrow> None | Some n \<Rightarrow> obj n)"

lemma node_obj_mark_seen [simp]: "node_obj (upd k mark_seen g) k' = node_obj g k'"
  by (auto simp: node_obj_def get_upd mark_seen_def split: option.splits)

lemma node_obj_mark_quiet [simp]: "node_obj (upd k mark_quiet g) k' = node_obj g k'"
  by (auto simp: node_obj_def get_upd mark_quiet_def split: option.splits)

subsection \<open>Coloring\<close>

lemma color_stack_keys: "map fst (Nodes (color_stack ks g)) = map fst (Nodes g)"
  by (induction ks g rule: color_stack.induct) (auto simp: keys_upd split: option.splits)

lemma color_stack_has_node: "has_node (color_stack ks g) k = has_node g k"
  by (induction ks g rule: color_stack.induct) (auto split: option.splits)

lemma color_stack_uses_rel: "uses_rel (color_stack ks g) = uses_rel g"
  by (induction ks g rule: color_stack.induct) (auto split: option.splits)

lemma color_stack_owns_rel: "owns_rel (color_stack ks g) = owns_rel g"
  by (induction ks g rule: color_stack.induct) (auto split: option.splits)

lemma color_stack_is_quiet: "is_quiet (color_stack ks g) k = is_quiet g k"
  by (induction ks g rule: color_stack.induct) (auto split: option.splits)

lemma color_stack_node_obj: "node_obj (color_stack ks g) k = node_obj g k"
  by (induction ks g rule: color_stack.induct) (auto split: option.splits)

lemma color_stack_mono: "is_seen g k \<Longrightarrow> is_seen (color_stack ks g) k"
  by (induction ks g rule: color_stack.induct)
     (auto simp: is_seen_mark_seen split: option.splits)

lemma color_stack_marks:
  "k \<in> set ks \<Longrightarrow> has_node g k \<Longrightarrow> is_seen (color_stack ks g) k"
proof (induction ks g rule: color_stack.induct)
  case (1 g)
  then show ?case by simp
next
  case (2 k' ks g)
  show ?case
  proof (cases "get g k'")
    case None
    with 2 show ?thesis by (auto simp: has_node_def)
  next
    case (Some n)
    show ?thesis
    proof (cases "seen n")
      case True
      show ?thesis
      proof (cases "k = k'")
        case k: True
        have "is_seen g k'" using Some True by (simp add: is_seen_def)
        then show ?thesis using Some True k by (simp add: color_stack_mono)
      next
        case False
        with 2 Some True show ?thesis by simp
      qed
    next
      case False
      show ?thesis
      proof (cases "k = k'")
        case True
        have "is_seen (upd k' mark_seen g) k'"
          using Some by (simp add: is_seen_mark_seen has_node_def)
        then show ?thesis using Some False True
          by (simp add: color_stack_mono)
      next
        case False2: False
        with 2 Some False show ?thesis by simp
      qed
    qed
  qed
qed

text \<open>Soundness: whatever the coloring marks was marked before or is reachable from the stack.\<close>

lemma color_stack_sound:
  "is_seen (color_stack ks g) k \<Longrightarrow>
   is_seen g k \<or> (\<exists>s \<in> set ks. (s, k) \<in> (uses_rel g)\<^sup>*)"
proof (induction ks g rule: color_stack.induct)
  case (1 g)
  then show ?case by simp
next
  case (2 k' ks g)
  show ?case
  proof (cases "get g k'")
    case None
    with 2 show ?thesis by auto
  next
    case (Some n)
    show ?thesis
    proof (cases "seen n")
      case True
      with Some 2 show ?thesis by auto
    next
      case False
      with Some 2 have "is_seen (upd k' mark_seen g) k \<or>
          (\<exists>s \<in> set (uses n @ ks). (s, k) \<in> (uses_rel g)\<^sup>*)"
        by simp
      then consider "is_seen g k" | "k = k'" | s where "s \<in> set (uses n)" "(s, k) \<in> (uses_rel g)\<^sup>*"
        | s where "s \<in> set ks" "(s, k) \<in> (uses_rel g)\<^sup>*"
        by (auto simp: is_seen_mark_seen)
      then show ?thesis
      proof cases
        case 3
        have "(k', s) \<in> uses_rel g" using Some 3 by (auto simp: uses_rel_def)
        with 3 have "(k', k) \<in> (uses_rel g)\<^sup>*" by (meson converse_rtrancl_into_rtrancl)
        then show ?thesis by auto
      qed auto
    qed
  qed
qed

text \<open>
  Closure: if every marked node has all its successors marked or waiting on the stack, then
  after the coloring every marked node has all its successors marked.
\<close>

definition closed_upto :: "key list \<Rightarrow> graph \<Rightarrow> bool" where
  "closed_upto ks g =
     (\<forall>a b. is_seen g a \<longrightarrow> (a, b) \<in> uses_rel g \<longrightarrow> has_node g b \<longrightarrow>
            b \<in> set ks \<or> is_seen g b)"

lemma color_stack_closed:
  "closed_upto ks g \<Longrightarrow> closed_upto [] (color_stack ks g)"
proof (induction ks g rule: color_stack.induct)
  case (1 g)
  then show ?case by simp
next
  case (2 k ks g)
  show ?case
  proof (cases "get g k")
    case None
    have "closed_upto ks g"
      unfolding closed_upto_def
    proof (intro allI impI)
      fix a b
      assume "is_seen g a" "(a, b) \<in> uses_rel g" "has_node g b"
      moreover from this None have "b \<noteq> k" by (auto simp: has_node_def)
      ultimately show "b \<in> set ks \<or> is_seen g b"
        using "2.prems" by (auto simp: closed_upto_def)
    qed
    with 2 None show ?thesis by simp
  next
    case (Some n)
    show ?thesis
    proof (cases "seen n")
      case True
      have "closed_upto ks g"
        unfolding closed_upto_def
      proof (intro allI impI)
        fix a b
        assume "is_seen g a" "(a, b) \<in> uses_rel g" "has_node g b"
        with "2.prems" have "b \<in> set (k # ks) \<or> is_seen g b"
          by (auto simp: closed_upto_def)
        moreover have "is_seen g k" using Some True by (simp add: is_seen_def)
        ultimately show "b \<in> set ks \<or> is_seen g b" by auto
      qed
      with 2 Some True show ?thesis by simp
    next
      case False
      have "closed_upto (uses n @ ks) (upd k mark_seen g)"
        unfolding closed_upto_def
      proof (intro allI impI)
        fix a b
        assume a: "is_seen (upd k mark_seen g) a" and e: "(a, b) \<in> uses_rel (upd k mark_seen g)"
          and b: "has_node (upd k mark_seen g) b"
        show "b \<in> set (uses n @ ks) \<or> is_seen (upd k mark_seen g) b"
        proof (cases "a = k")
          case True
          from e have "(a, b) \<in> uses_rel g" by simp
          with True Some have "b \<in> set (uses n)" by (auto simp: uses_rel_def)
          then show ?thesis by simp
        next
          case False
          with a have "is_seen g a" by (simp add: is_seen_mark_seen)
          moreover from e have "(a, b) \<in> uses_rel g" by simp
          moreover from b have "has_node g b" by simp
          ultimately have "b \<in> set (k # ks) \<or> is_seen g b"
            using "2.prems" by (auto simp: closed_upto_def)
          then show ?thesis using b by (auto simp: is_seen_mark_seen)
        qed
      qed
      with 2 Some False show ?thesis by simp
    qed
  qed
qed

lemma color_stack_complete:
  assumes cl: "closed_upto ks g" and s: "s \<in> set ks" and hs: "has_node g s"
    and r: "(s, k) \<in> (uses_rel g)\<^sup>*" and hk: "has_node g k"
  shows "is_seen (color_stack ks g) k"
  using r hk
proof (induction rule: rtrancl_induct)
  case base
  from s hs show ?case by (rule color_stack_marks)
next
  case (step y z)
  from step.hyps(2) have "has_node g y" by (auto simp: uses_rel_def has_node_def)
  with step.IH have "is_seen (color_stack ks g) y" .
  moreover have "closed_upto [] (color_stack ks g)" using cl by (rule color_stack_closed)
  ultimately show ?case
    using step.hyps(2) step.prems
    by (auto simp: closed_upto_def color_stack_uses_rel color_stack_has_node)
qed

subsection \<open>Quieting\<close>

lemma quieten_stack_Nil [simp]: "quieten_stack [] g = Some g"
  by (subst quieten_stack.simps) simp

lemma quieten_stack_Cons:
  "quieten_stack (k # ks) g = (case get g k of
      None \<Rightarrow> quieten_stack ks g
    | Some n \<Rightarrow> quieten_stack (owns n @ ks) (upd k mark_quiet g))"
  by (subst quieten_stack.simps) simp

definition frame_quiet :: "graph \<Rightarrow> graph \<Rightarrow> bool" where
  "frame_quiet g g' =
     (map fst (Nodes g') = map fst (Nodes g) \<and> uses_rel g' = uses_rel g \<and>
      owns_rel g' = owns_rel g \<and>
      (\<forall>k. has_node g' k = has_node g k \<and> is_seen g' k = is_seen g k \<and>
           node_obj g' k = node_obj g k \<and> (is_quiet g k \<longrightarrow> is_quiet g' k)))"

lemma frame_quiet_refl: "frame_quiet g g"
  by (simp add: frame_quiet_def)

lemma frame_quiet_trans: "frame_quiet g g' \<Longrightarrow> frame_quiet g' g'' \<Longrightarrow> frame_quiet g g''"
  by (simp add: frame_quiet_def)

lemma frame_quiet_mark: "frame_quiet g (upd k mark_quiet g)"
  by (simp add: frame_quiet_def keys_upd is_quiet_mark_quiet)

lemma quieten_stack_frame:
  assumes "quieten_stack ks g = Some g'"
  shows "frame_quiet g g'"
proof (rule quieten_stack.raw_induct [where P = "\<lambda>ks g g'. frame_quiet g g'", OF _ assms], goal_cases)
  case (1 f ks g g')
  show ?case
  proof (cases ks)
    case Nil
    with 1 show ?thesis by (simp add: frame_quiet_refl)
  next
    case (Cons k ks')
    show ?thesis
    proof (cases "get g k")
      case None
      with 1 Cons show ?thesis by simp
    next
      case (Some n)
      with 1 Cons have "frame_quiet (upd k mark_quiet g) g'" by simp
      with frame_quiet_mark show ?thesis by (rule frame_quiet_trans)
    qed
  qed
qed

lemma quieten_stack_sound:
  assumes "quieten_stack ks g = Some g'"
  shows "is_quiet g' k \<longrightarrow> is_quiet g k \<or> (\<exists>s \<in> set ks. (s, k) \<in> (owns_rel g)\<^sup>*)"
proof (rule quieten_stack.raw_induct [where P = "\<lambda>ks g g'. is_quiet g' k \<longrightarrow>
    is_quiet g k \<or> (\<exists>s \<in> set ks. (s, k) \<in> (owns_rel g)\<^sup>*)", OF _ assms], goal_cases)
  case (1 f ks g g')
  show ?case
  proof (cases ks)
    case Nil
    with 1 show ?thesis by simp
  next
    case (Cons k' ks')
    show ?thesis
    proof (cases "get g k'")
      case None
      with 1 Cons show ?thesis by auto
    next
      case (Some n)
      with 1(2) Cons have eq: "f (owns n @ ks') (upd k' mark_quiet g) = Some g'" by simp
      show ?thesis
      proof
        assume "is_quiet g' k"
        with 1(1) [OF eq] have "is_quiet (upd k' mark_quiet g) k \<or>
            (\<exists>s \<in> set (owns n @ ks'). (s, k) \<in> (owns_rel g)\<^sup>*)"
          by simp
        then consider "is_quiet g k" | "k = k'"
          | s where "s \<in> set (owns n)" "(s, k) \<in> (owns_rel g)\<^sup>*"
          | s where "s \<in> set ks'" "(s, k) \<in> (owns_rel g)\<^sup>*"
          by (auto simp: is_quiet_mark_quiet)
        then show "is_quiet g k \<or> (\<exists>s \<in> set ks. (s, k) \<in> (owns_rel g)\<^sup>*)"
        proof cases
          case 3
          have "(k', s) \<in> owns_rel g" using Some 3 by (auto simp: owns_rel_def)
          with 3 have "(k', k) \<in> (owns_rel g)\<^sup>*" by (meson converse_rtrancl_into_rtrancl)
          then show ?thesis using Cons by auto
        qed (use Cons in auto)
      qed
    qed
  qed
qed

definition quiet_closed_upto :: "key list \<Rightarrow> graph \<Rightarrow> bool" where
  "quiet_closed_upto ks g =
     (\<forall>a b. is_quiet g a \<longrightarrow> (a, b) \<in> owns_rel g \<longrightarrow> has_node g b \<longrightarrow>
            b \<in> set ks \<or> is_quiet g b)"

definition pending_or_quiet :: "key set \<Rightarrow> key list \<Rightarrow> graph \<Rightarrow> bool" where
  "pending_or_quiet Q ks g = (\<forall>k. has_node g k \<longrightarrow> k \<in> Q \<longrightarrow> k \<in> set ks \<or> is_quiet g k)"

lemma quieten_stack_closed:
  assumes "quieten_stack ks g = Some g'"
  shows "quiet_closed_upto ks g \<and> pending_or_quiet Q ks g \<longrightarrow>
         quiet_closed_upto [] g' \<and> pending_or_quiet Q [] g'"
proof (rule quieten_stack.raw_induct [where P = "\<lambda>ks g g'.
    quiet_closed_upto ks g \<and> pending_or_quiet Q ks g \<longrightarrow>
    quiet_closed_upto [] g' \<and> pending_or_quiet Q [] g'", OF _ assms], goal_cases)
  case (1 f ks g g')
  show ?case
  proof (cases ks)
    case Nil
    with 1 show ?thesis by auto
  next
    case (Cons k ks')
    show ?thesis
    proof (cases "get g k")
      case None
      have eq: "f ks' g = Some g'" using 1(2) None Cons by simp
      show ?thesis
      proof
        assume a: "quiet_closed_upto ks g \<and> pending_or_quiet Q ks g"
        have "quiet_closed_upto ks' g"
          unfolding quiet_closed_upto_def
        proof (intro allI impI)
          fix a' b
          assume "is_quiet g a'" "(a', b) \<in> owns_rel g" "has_node g b"
          moreover from this None have "b \<noteq> k" by (auto simp: has_node_def)
          ultimately show "b \<in> set ks' \<or> is_quiet g b"
            using a Cons by (auto simp: quiet_closed_upto_def)
        qed
        moreover have "pending_or_quiet Q ks' g"
          unfolding pending_or_quiet_def
        proof (intro allI impI)
          fix k'
          assume "has_node g k'" "k' \<in> Q"
          moreover from this None have "k' \<noteq> k" by (auto simp: has_node_def)
          ultimately show "k' \<in> set ks' \<or> is_quiet g k'"
            using a Cons by (auto simp: pending_or_quiet_def)
        qed
        ultimately show "quiet_closed_upto [] g' \<and> pending_or_quiet Q [] g'"
          using 1(1) [OF eq] by simp
      qed
    next
      case (Some n)
      let ?g = "upd k mark_quiet g"
      have eq: "f (owns n @ ks') ?g = Some g'" using 1(2) Some Cons by simp
      have hk: "has_node g k" using Some by (simp add: has_node_def)
      show ?thesis
      proof
        assume a: "quiet_closed_upto ks g \<and> pending_or_quiet Q ks g"
        have c: "quiet_closed_upto (owns n @ ks') ?g"
          unfolding quiet_closed_upto_def
        proof (intro allI impI)
          fix a' b
          assume q: "is_quiet ?g a'" and e: "(a', b) \<in> owns_rel ?g" and b: "has_node ?g b"
          from e have e': "(a', b) \<in> owns_rel g" by simp
          from b have b': "has_node g b" by simp
          show "b \<in> set (owns n @ ks') \<or> is_quiet ?g b"
          proof (cases "a' = k")
            case True
            with e' Some have "b \<in> set (owns n)" by (auto simp: owns_rel_def)
            then show ?thesis by simp
          next
            case False
            with q have "is_quiet g a'" by (simp add: is_quiet_mark_quiet)
            with e' b' have "b \<in> set ks \<or> is_quiet g b"
              using a by (auto simp: quiet_closed_upto_def)
            then show ?thesis using Cons b' by (auto simp: is_quiet_mark_quiet)
          qed
        qed
        have m: "pending_or_quiet Q (owns n @ ks') ?g"
          using a Cons by (auto simp: pending_or_quiet_def is_quiet_mark_quiet)
        from 1(1) [OF eq] c m
        show "quiet_closed_upto [] g' \<and> pending_or_quiet Q [] g'" by simp
      qed
    qed
  qed
qed

lemma frame_quiet_closed:
  assumes f: "frame_quiet g g'" and c: "quiet_closed_upto [] g'" and a: "is_quiet g' a"
    and r: "(a, b) \<in> (owns_rel g)\<^sup>*" and hb: "has_node g b"
  shows "is_quiet g' b"
  using r hb
proof (induction rule: rtrancl_induct)
  case base
  from a show ?case .
next
  case (step y z)
  from step.hyps(2) have "has_node g y" by (auto simp: owns_rel_def has_node_def)
  with step.IH have "is_quiet g' y" .
  with step.prems step.hyps(2) f c show ?case
    by (auto simp: quiet_closed_upto_def frame_quiet_def)
qed

lemma quieten_unseen_frame:
  "quieten_unseen ns g = Some g' \<Longrightarrow> frame_quiet g g'"
proof (induction ns arbitrary: g)
  case Nil
  then show ?case by (simp add: frame_quiet_refl)
next
  case (Cons kn ns)
  show ?case
  proof (cases "seen (snd kn)")
    case True
    with Cons show ?thesis by simp
  next
    case False
    with Cons.prems obtain g1 where g1: "quieten_stack (owns (snd kn)) g = Some g1"
      and r: "quieten_unseen ns g1 = Some g'"
      by (auto split: option.splits)
    from quieten_stack_frame [OF g1] Cons.IH [OF r] show ?thesis by (rule frame_quiet_trans)
  qed
qed

lemma quieten_unseen_sound:
  "quieten_unseen ns g = Some g' \<Longrightarrow> is_quiet g' k \<Longrightarrow>
   is_quiet g k \<or>
   (\<exists>kn \<in> set ns. \<not> seen (snd kn) \<and> (\<exists>s \<in> set (owns (snd kn)). (s, k) \<in> (owns_rel g)\<^sup>*))"
proof (induction ns arbitrary: g)
  case Nil
  then show ?case by simp
next
  case (Cons kn ns)
  show ?case
  proof (cases "seen (snd kn)")
    case True
    with Cons show ?thesis by auto
  next
    case False
    with Cons.prems obtain g1 where g1: "quieten_stack (owns (snd kn)) g = Some g1"
      and r: "quieten_unseen ns g1 = Some g'"
      by (auto split: option.splits)
    have o: "owns_rel g1 = owns_rel g"
      using quieten_stack_frame [OF g1] by (simp add: frame_quiet_def)
    from Cons.IH [OF r Cons.prems(2)] o
    consider "is_quiet g1 k"
      | kn' where "kn' \<in> set ns" "\<not> seen (snd kn')"
          "\<exists>s \<in> set (owns (snd kn')). (s, k) \<in> (owns_rel g)\<^sup>*"
      by auto
    then show ?thesis
    proof cases
      case 1
      with quieten_stack_sound [OF g1, of k] False show ?thesis by auto
    next
      case 2
      then show ?thesis by auto
    qed
  qed
qed

lemma quieten_unseen_closed:
  "quieten_unseen ns g = Some g' \<Longrightarrow> quiet_closed_upto [] g \<Longrightarrow>
   quiet_closed_upto [] g' \<and>
   (\<forall>kn \<in> set ns. \<not> seen (snd kn) \<longrightarrow>
      (\<forall>s \<in> set (owns (snd kn)). has_node g s \<longrightarrow> is_quiet g' s))"
proof (induction ns arbitrary: g)
  case Nil
  then show ?case by simp
next
  case (Cons kn ns)
  show ?case
  proof (cases "seen (snd kn)")
    case True
    with Cons show ?thesis by simp
  next
    case False
    with Cons.prems obtain g1 where g1: "quieten_stack (owns (snd kn)) g = Some g1"
      and r: "quieten_unseen ns g1 = Some g'"
      by (auto split: option.splits)
    have f1: "frame_quiet g g1" using g1 by (rule quieten_stack_frame)
    have f2: "frame_quiet g1 g'" using r by (rule quieten_unseen_frame)
    have "quiet_closed_upto (owns (snd kn)) g"
      using Cons.prems(2) by (auto simp: quiet_closed_upto_def)
    moreover have "pending_or_quiet (set (owns (snd kn))) (owns (snd kn)) g"
      by (simp add: pending_or_quiet_def)
    ultimately have c1: "quiet_closed_upto [] g1"
      and m1: "pending_or_quiet (set (owns (snd kn))) [] g1"
      using quieten_stack_closed [OF g1, of "set (owns (snd kn))"] by auto
    from Cons.IH [OF r c1] have c2: "quiet_closed_upto [] g'"
      and m2: "\<forall>kn \<in> set ns. \<not> seen (snd kn) \<longrightarrow>
        (\<forall>s \<in> set (owns (snd kn)). has_node g1 s \<longrightarrow> is_quiet g' s)"
      by auto
    have "\<forall>s \<in> set (owns (snd kn)). has_node g s \<longrightarrow> is_quiet g' s"
      using m1 f1 f2 by (auto simp: pending_or_quiet_def frame_quiet_def)
    with c2 m2 f1 show ?thesis by (auto simp: frame_quiet_def)
  qed
qed

subsection \<open>Classification\<close>

lemma classify_sets:
  "\<forall>kn \<in> set ns. obj (snd kn) \<noteq> None \<Longrightarrow>
   \<exists>u un. classify p ns acc = Inr (u, un) \<and>
     set u = set (fst acc) \<union>
       {ob. \<exists>kn \<in> set ns. obj (snd kn) = Some ob \<and> reportable p ob \<and> seen (snd kn)} \<and>
     set un = set (snd acc) \<union>
       {ob. \<exists>kn \<in> set ns. obj (snd kn) = Some ob \<and> reportable p ob \<and>
            \<not> seen (snd kn) \<and> \<not> quiet (snd kn)}"
proof (induction ns arbitrary: acc)
  case Nil
  then show ?case by (cases acc) simp
next
  case (Cons kn ns)
  from Cons.prems obtain ob where ob: "obj (snd kn) = Some ob" by auto
  from Cons.prems have rest: "\<forall>kn \<in> set ns. obj (snd kn) \<noteq> None" by simp
  consider (skip) "\<not> reportable p ob \<or> (\<not> seen (snd kn) \<and> quiet (snd kn))"
    | (used) "reportable p ob" "seen (snd kn)"
    | (unused) "reportable p ob" "\<not> seen (snd kn)" "\<not> quiet (snd kn)"
    by blast
  then show ?case
  proof cases
    case skip
    then have "classify p (kn # ns) acc = classify p ns acc"
      using ob by (auto simp: reportable_def)
    with Cons.IH [OF rest, of acc] skip ob show ?thesis by auto
  next
    case used
    then have "classify p (kn # ns) acc = classify p ns (fst acc @ [ob], snd acc)"
      using ob by (auto simp: reportable_def)
    with Cons.IH [OF rest, of "(fst acc @ [ob], snd acc)"] used ob show ?thesis by auto
  next
    case unused
    then have "classify p (kn # ns) acc = classify p ns (fst acc, snd acc @ [ob])"
      using ob by (auto simp: reportable_def)
    with Cons.IH [OF rest, of "(fst acc, snd acc @ [ob])"] unused ob show ?thesis by auto
  qed
qed

subsection \<open>What the analysis reports\<close>

text \<open>
  The store invariant: every object has one node, and the node carries the object. A graph
  is fresh when no node is marked; the builder never sets a mark.
\<close>

definition wf_graph :: "graph \<Rightarrow> bool" where
  "wf_graph g = (distinct (map fst (Nodes g)) \<and> list_all (\<lambda>kn. obj (snd kn) = Some (fst kn)) (Nodes g))"

definition fresh :: "graph \<Rightarrow> bool" where
  "fresh g = (\<not> seen (Root g) \<and> \<not> quiet (Root g) \<and>
              list_all (\<lambda>kn. \<not> seen (snd kn) \<and> \<not> quiet (snd kn)) (Nodes g))"

definition reach :: "graph \<Rightarrow> key set" where
  "reach g = {k. (None, k) \<in> (uses_rel g)\<^sup>*}"

definition quieted :: "graph \<Rightarrow> key set" where
  "quieted g = {k. \<exists>a. has_node g a \<and> a \<noteq> None \<and> a \<notin> reach g \<and> (a, k) \<in> (owns_rel g)\<^sup>+}"

lemma fresh_not_seen: "fresh g \<Longrightarrow> \<not> is_seen g k"
  by (cases k)
     (auto simp: fresh_def is_seen_def get_def list_all_iff split: option.splits
           dest!: map_of_SomeD)

lemma fresh_not_quiet: "fresh g \<Longrightarrow> \<not> is_quiet g k"
  by (cases k)
     (auto simp: fresh_def is_quiet_def get_def list_all_iff split: option.splits
           dest!: map_of_SomeD)

lemma has_node_Root [simp]: "has_node g None"
  by (simp add: has_node_def get_def)

lemma color_keys: "map fst (Nodes (color r g)) = map fst (Nodes g)"
  unfolding color_def by (rule color_stack_keys)

lemma color_has_node: "has_node (color r g) k = has_node g k"
  unfolding color_def by (rule color_stack_has_node)

lemma color_uses_rel: "uses_rel (color r g) = uses_rel g"
  unfolding color_def by (rule color_stack_uses_rel)

lemma color_owns_rel: "owns_rel (color r g) = owns_rel g"
  unfolding color_def by (rule color_stack_owns_rel)

lemma color_is_quiet: "is_quiet (color r g) k = is_quiet g k"
  unfolding color_def by (rule color_stack_is_quiet)

lemma color_node_obj: "node_obj (color r g) k = node_obj g k"
  unfolding color_def by (rule color_stack_node_obj)

lemma color_seen_iff:
  assumes "fresh g"
  shows "is_seen (color None g) k \<longleftrightarrow> has_node g k \<and> k \<in> reach g"
proof
  assume s: "is_seen (color None g) k"
  then have "has_node (color None g) k" by (auto simp: is_seen_def has_node_def split: option.splits)
  then have "has_node g k" by (simp add: color_has_node)
  moreover from s color_stack_sound [of "[None]" g k] fresh_not_seen [OF assms]
  have "k \<in> reach g" by (auto simp: color_def reach_def)
  ultimately show "has_node g k \<and> k \<in> reach g" by simp
next
  assume a: "has_node g k \<and> k \<in> reach g"
  have "closed_upto [None] g" using fresh_not_seen [OF assms] by (simp add: closed_upto_def)
  from color_stack_complete [OF this, of None k] a
  show "is_seen (color None g) k" by (simp add: color_def reach_def)
qed

lemma in_Nodes_get:
  "distinct (map fst (Nodes g)) \<Longrightarrow> (k, n) \<in> set (Nodes g) \<longleftrightarrow> get g (Some k) = Some n"
  by (simp add: get_def)

lemma results_quiet_iff:
  assumes d: "distinct (map fst (Nodes g))" and fr: "fresh g"
    and q: "quieten_unseen (Nodes (color None g)) (color None g) = Some g2"
  shows "is_quiet g2 k \<longleftrightarrow> has_node g k \<and> k \<in> quieted g"
proof -
  let ?g1 = "color None g"
  have keys1: "map fst (Nodes ?g1) = map fst (Nodes g)" by (simp add: color_keys)
  then have d1: "distinct (map fst (Nodes ?g1))" using d by simp
  have o1: "owns_rel ?g1 = owns_rel g" by (simp add: color_owns_rel)
  have h1: "\<And>k. has_node ?g1 k = has_node g k" by (simp add: color_has_node)
  have nq1: "\<And>k. \<not> is_quiet ?g1 k"
    using fresh_not_quiet [OF fr] by (simp add: color_is_quiet)
  have fq: "frame_quiet ?g1 g2" using q by (rule quieten_unseen_frame)
  have c1: "quiet_closed_upto [] ?g1" using nq1 by (simp add: quiet_closed_upto_def)
  have unseen_iff: "\<And>a n. (a, n) \<in> set (Nodes ?g1) \<Longrightarrow>
      (\<not> seen n) = (Some a \<notin> reach g) \<and> has_node g (Some a) \<and>
      set (owns n) = {b. (Some a, b) \<in> owns_rel g}"
  proof -
    fix a n
    assume "(a, n) \<in> set (Nodes ?g1)"
    then have gn: "get ?g1 (Some a) = Some n" using d1 by (simp add: in_Nodes_get)
    then have hn: "has_node g (Some a)" using h1 [of "Some a"] by (simp add: has_node_def)
    from gn have "seen n = is_seen ?g1 (Some a)" by (simp add: is_seen_def)
    with color_seen_iff [OF fr, of "Some a"] hn have "(\<not> seen n) = (Some a \<notin> reach g)" by simp
    moreover from gn have "set (owns n) = {b. (Some a, b) \<in> owns_rel ?g1}"
      by (auto simp: owns_rel_def)
    ultimately show "(\<not> seen n) = (Some a \<notin> reach g) \<and> has_node g (Some a) \<and>
      set (owns n) = {b. (Some a, b) \<in> owns_rel g}"
      using hn o1 by simp
  qed
  show ?thesis
  proof
    assume qk: "is_quiet g2 k"
    then have "has_node g2 k" by (auto simp: is_quiet_def has_node_def split: option.splits)
    then have hk: "has_node g k" using fq h1 by (simp add: frame_quiet_def)
    from quieten_unseen_sound [OF q qk] nq1 o1
    obtain kn s where kn: "kn \<in> set (Nodes ?g1)" "\<not> seen (snd kn)"
      and s: "s \<in> set (owns (snd kn))" "(s, k) \<in> (owns_rel g)\<^sup>*"
      by auto
    obtain a n where an: "kn = (a, n)" by (cases kn)
    from unseen_iff [of a n] kn an s
    have "Some a \<notin> reach g" "has_node g (Some a)" "(Some a, s) \<in> owns_rel g" by auto
    moreover from this s(2) have "(Some a, k) \<in> (owns_rel g)\<^sup>+" by (meson rtrancl_into_trancl2)
    ultimately have "k \<in> quieted g" by (auto simp: quieted_def)
    with hk show "has_node g k \<and> k \<in> quieted g" by simp
  next
    assume a: "has_node g k \<and> k \<in> quieted g"
    then obtain a0 where a0: "has_node g a0" "a0 \<noteq> None" "a0 \<notin> reach g"
      "(a0, k) \<in> (owns_rel g)\<^sup>+"
      by (auto simp: quieted_def)
    from a0(2) obtain a' where a': "a0 = Some a'" by auto
    from a0(1) a' obtain n0 where n0: "get g (Some a') = Some n0" by (auto simp: has_node_def)
    have "has_node ?g1 (Some a')" using a0(1) a' h1 by simp
    then obtain n where n: "get ?g1 (Some a') = Some n" by (auto simp: has_node_def)
    then have inn: "(a', n) \<in> set (Nodes ?g1)" using d1 by (simp add: in_Nodes_get)
    from a0(4) obtain s where s: "(a0, s) \<in> owns_rel g" "(s, k) \<in> (owns_rel g)\<^sup>*"
      by (meson tranclD)
    from unseen_iff [OF inn] a0 a' s have us: "\<not> seen n" "s \<in> set (owns n)" by auto
    have hs: "has_node g s"
    proof (cases "s = k")
      case True
      with a show ?thesis by simp
    next
      case False
      with s(2) obtain z where "(s, z) \<in> owns_rel g" by (meson converse_rtranclE)
      then show ?thesis by (auto simp: owns_rel_def has_node_def)
    qed
    from quieten_unseen_closed [OF q c1] inn us hs h1
    have c2: "quiet_closed_upto [] g2" and qs: "is_quiet g2 s" by auto
    from frame_quiet_closed [OF fq c2 qs, of k] s(2) o1 a h1
    show "is_quiet g2 k" by simp
  qed
qed

theorem results_characterization:
  assumes wf: "wf_graph g" and fr: "fresh g" and r: "results p g = Some res"
  shows "\<exists>used unused. res = Inr (used, unused) \<and>
           set used = {ob. has_node g (Some ob) \<and> reportable p ob \<and> Some ob \<in> reach g} \<and>
           set unused = {ob. has_node g (Some ob) \<and> reportable p ob \<and>
                             Some ob \<notin> reach g \<and> Some ob \<notin> quieted g}"
proof -
  let ?g1 = "color None g"
  from wf have d: "distinct (map fst (Nodes g))" by (simp add: wf_graph_def)
  from r obtain g2 where q: "quieten_unseen (Nodes ?g1) ?g1 = Some g2"
    and res: "res = classify p (Nodes g2) ([], [])"
    by (auto simp: results_def Let_def split: option.splits)
  have fq: "frame_quiet ?g1 g2" using q by (rule quieten_unseen_frame)
  have keys2: "map fst (Nodes g2) = map fst (Nodes g)"
    using fq by (simp add: frame_quiet_def color_keys)
  then have d2: "distinct (map fst (Nodes g2))" using d by simp
  have obj_g: "\<And>k. has_node g (Some k) \<Longrightarrow> node_obj g (Some k) = Some k"
    using wf d
    by (auto simp: wf_graph_def has_node_def node_obj_def get_def list_all_iff
             dest!: map_of_SomeD)
  have node2: "\<And>k n. (k, n) \<in> set (Nodes g2) \<Longrightarrow>
      has_node g (Some k) \<and> obj n = Some k \<and> seen n = (Some k \<in> reach g) \<and>
      quiet n = (Some k \<in> quieted g)"
  proof -
    fix k n
    assume "(k, n) \<in> set (Nodes g2)"
    then have gn: "get g2 (Some k) = Some n" using d2 by (simp add: in_Nodes_get)
    then have "has_node g2 (Some k)" by (simp add: has_node_def)
    then have hk: "has_node g (Some k)"
      using fq by (simp add: frame_quiet_def color_has_node)
    from gn have "obj n = node_obj g2 (Some k)" by (simp add: node_obj_def)
    also have "\<dots> = node_obj g (Some k)"
      using fq by (simp add: frame_quiet_def color_node_obj)
    finally have ob: "obj n = Some k" using obj_g [OF hk] by simp
    from gn have "seen n = is_seen g2 (Some k)" by (simp add: is_seen_def)
    also have "\<dots> = is_seen ?g1 (Some k)" using fq by (simp add: frame_quiet_def)
    finally have sn: "seen n = (Some k \<in> reach g)"
      using color_seen_iff [OF fr, of "Some k"] hk by simp
    from gn have "quiet n = is_quiet g2 (Some k)" by (simp add: is_quiet_def)
    with results_quiet_iff [OF d fr q, of "Some k"] hk
    have "quiet n = (Some k \<in> quieted g)" by simp
    with hk ob sn show "has_node g (Some k) \<and> obj n = Some k \<and>
      seen n = (Some k \<in> reach g) \<and> quiet n = (Some k \<in> quieted g)" by simp
  qed
  have node2': "\<And>k. has_node g (Some k) \<Longrightarrow> \<exists>n. (k, n) \<in> set (Nodes g2)"
  proof -
    fix k
    assume "has_node g (Some k)"
    then have "has_node g2 (Some k)"
      using fq by (simp add: frame_quiet_def color_has_node)
    then show "\<exists>n. (k, n) \<in> set (Nodes g2)"
      using d2 by (auto simp: has_node_def in_Nodes_get)
  qed
  have "\<forall>kn \<in> set (Nodes g2). obj (snd kn) \<noteq> None"
    using node2 by force
  from classify_sets [OF this, of p "([], [])"] res
  obtain u un where c: "res = Inr (u, un)"
    and u: "set u = {ob. \<exists>kn \<in> set (Nodes g2). obj (snd kn) = Some ob \<and> reportable p ob \<and>
                       seen (snd kn)}"
    and un: "set un = {ob. \<exists>kn \<in> set (Nodes g2). obj (snd kn) = Some ob \<and> reportable p ob \<and>
                       \<not> seen (snd kn) \<and> \<not> quiet (snd kn)}"
    by auto
  have "set u = {ob. has_node g (Some ob) \<and> reportable p ob \<and> Some ob \<in> reach g}"
  proof (rule set_eqI, rule iffI)
    fix ob
    assume "ob \<in> set u"
    with u obtain k n where "(k, n) \<in> set (Nodes g2)" "obj n = Some ob" "reportable p ob" "seen n"
      by auto
    with node2 [of k n] show "ob \<in> {ob. has_node g (Some ob) \<and> reportable p ob \<and> Some ob \<in> reach g}"
      by auto
  next
    fix ob
    assume a: "ob \<in> {ob. has_node g (Some ob) \<and> reportable p ob \<and> Some ob \<in> reach g}"
    with node2' [of ob] obtain n where n: "(ob, n) \<in> set (Nodes g2)" by auto
    with node2 [OF n] a u show "ob \<in> set u" by force
  qed
  moreover have "set un = {ob. has_node g (Some ob) \<and> reportable p ob \<and>
                             Some ob \<notin> reach g \<and> Some ob \<notin> quieted g}"
  proof (rule set_eqI, rule iffI)
    fix ob
    assume "ob \<in> set un"
    with un obtain k n where "(k, n) \<in> set (Nodes g2)" "obj n = Some ob" "reportable p ob"
      "\<not> seen n" "\<not> quiet n"
      by auto
    with node2 [of k n] show "ob \<in> {ob. has_node g (Some ob) \<and> reportable p ob \<and>
                             Some ob \<notin> reach g \<and> Some ob \<notin> quieted g}"
      by auto
  next
    fix ob
    assume a: "ob \<in> {ob. has_node g (Some ob) \<and> reportable p ob \<and>
                             Some ob \<notin> reach g \<and> Some ob \<notin> quieted g}"
    with node2' [of ob] obtain n where n: "(ob, n) \<in> set (Nodes g2)" by auto
    with node2 [OF n] a un show "ob \<in> set un" by force
  qed
  ultimately show ?thesis using c by simp
qed


section \<open>Running the analysis\<close>

text \<open>
  \<^verbatim>\<open>run\<close>: the graph starts with Root alone. The result is \<open>None\<close> when the
  analysis does not return, \<open>Some (Inl e)\<close> when it panics, and otherwise the lists
  \<^verbatim>\<open>Used\<close> and \<^verbatim>\<open>Unused\<close>.
\<close>

definition newGraph :: graph where
  "newGraph =
     (let g0 = \<lparr>Root = \<lparr>obj = None, node_id = 0, uses = [], owns = [], seen = False, quiet = False\<rparr>,
                Nodes = [], nodeCounter = 0, namedTypes = [], interfaceTypes = []\<rparr>;
          (n, g1) = newNode None g0
      in g1\<lparr>Root := n\<rparr>)"

definition run :: "pass \<Rightarrow> (error + (object list \<times> object list)) option" where
  "run p = (case entry p newGraph of
      Inl e \<Rightarrow> Some (Inl e)
    | Inr g \<Rightarrow> results p g)"


section \<open>Reading results off a unit\<close>

declare quieten_stack.simps [code]

definition use_edge :: "graph \<Rightarrow> key \<Rightarrow> key \<Rightarrow> bool" where
  "use_edge g a b = (case get g a of None \<Rightarrow> False | Some n \<Rightarrow> b \<in> set (uses n))"

definition own_edge :: "graph \<Rightarrow> key \<Rightarrow> key \<Rightarrow> bool" where
  "own_edge g a b = (case get g a of None \<Rightarrow> False | Some n \<Rightarrow> b \<in> set (owns n))"

text \<open>The graph that \<^verbatim>\<open>entry\<close> builds for a unit, and the graph after coloring and quieting.\<close>

definition graph_of :: "pass \<Rightarrow> graph" where
  "graph_of p = (case entry p newGraph of Inl e \<Rightarrow> newGraph | Inr g \<Rightarrow> g)"

definition marked :: "graph \<Rightarrow> graph option" where
  "marked g = quieten_unseen (Nodes (color None g)) (color None g)"

lemma use_edge_iff: "use_edge g a b \<longleftrightarrow> (a, b) \<in> uses_rel g"
  by (auto simp: use_edge_def uses_rel_def split: option.splits)

lemma own_edge_iff: "own_edge g a b \<longleftrightarrow> (a, b) \<in> owns_rel g"
  by (auto simp: own_edge_def owns_rel_def split: option.splits)

lemma reach_step: "a \<in> reach g \<Longrightarrow> (a, b) \<in> uses_rel g \<Longrightarrow> b \<in> reach g"
  by (auto simp: reach_def intro: rtrancl_into_rtrancl)


section \<open>What the builder preserves\<close>

text \<open>
  The builder only adds: nodes, and entries in the \<^verbatim>\<open>uses\<close> and \<^verbatim>\<open>owns\<close> lists of
  nodes. \<open>node_le n n'\<close> says that \<open>n'\<close> is \<open>n\<close> with more edges; \<open>ext g g'\<close> says that every
  node of \<open>g\<close> is in \<open>g'\<close> with more edges. \<open>extends\<close> is the same test on the list of nodes.
\<close>

definition node_le :: "node \<Rightarrow> node \<Rightarrow> bool" where
  "node_le n n' = (set (uses n) \<subseteq> set (uses n') \<and> set (owns n) \<subseteq> set (owns n'))"

definition ext :: "graph \<Rightarrow> graph \<Rightarrow> bool" where
  "ext g g' = (\<forall>k n. get g k = Some n \<longrightarrow> (\<exists>n'. get g' k = Some n' \<and> node_le n n'))"

definition extends :: "graph \<Rightarrow> graph \<Rightarrow> bool" where
  "extends g g' =
     (node_le (Root g) (Root g') \<and>
      list_all (\<lambda>kn. case map_of (Nodes g') (fst kn) of
                        None \<Rightarrow> False
                      | Some n' \<Rightarrow> node_le (snd kn) n') (Nodes g))"

definition targets_ok :: "graph \<Rightarrow> bool" where
  "targets_ok g = (\<forall>a b. (a, b) \<in> uses_rel g \<union> owns_rel g \<longrightarrow> has_node g b)"

definition built :: "graph \<Rightarrow> bool" where
  "built g = (wf_graph g \<and> fresh g \<and> targets_ok g)"

definition grows :: "graph \<Rightarrow> graph \<Rightarrow> bool" where
  "grows g g' = (ext g g' \<and> (built g \<longrightarrow> built g'))"

definition preserving :: "step \<Rightarrow> bool" where
  "preserving f = (\<forall>g g'. f g = Inr g' \<longrightarrow> grows g g')"

lemma node_le_refl [simp]: "node_le n n"
  by (simp add: node_le_def)

lemma node_le_trans: "node_le a b \<Longrightarrow> node_le b c \<Longrightarrow> node_le a c"
  by (auto simp: node_le_def)

lemma ext_refl [simp]: "ext g g"
  by (simp add: ext_def)

lemma ext_trans: "ext a b \<Longrightarrow> ext b c \<Longrightarrow> ext a c"
  unfolding ext_def by (meson node_le_trans)

lemma grows_refl [simp]: "grows g g"
  by (simp add: grows_def)

lemma grows_trans: "grows a b \<Longrightarrow> grows b c \<Longrightarrow> grows a c"
  by (auto simp: grows_def intro: ext_trans)

lemma ext_uses_rel: "ext g g' \<Longrightarrow> uses_rel g \<subseteq> uses_rel g'"
  by (fastforce simp: ext_def uses_rel_def node_le_def)


lemma ext_has_node: "ext g g' \<Longrightarrow> has_node g k \<Longrightarrow> has_node g' k"
  by (fastforce simp: ext_def has_node_def)

lemma extends_ext: "extends g g' \<Longrightarrow> ext g g'"
proof -
  assume e: "extends g g'"
  show "ext g g'"
    unfolding ext_def
  proof (intro allI impI)
    fix k n assume gk: "get g k = Some n"
    show "\<exists>n'. get g' k = Some n' \<and> node_le n n'"
    proof (cases k)
      case None
      with gk e show ?thesis by (simp add: get_def extends_def)
    next
      case (Some ob)
      with gk have "(ob, n) \<in> set (Nodes g)" by (simp add: get_def map_of_SomeD)
      moreover from e have "\<forall>kn\<in>set (Nodes g). case map_of (Nodes g') (fst kn) of
              None \<Rightarrow> False | Some n' \<Rightarrow> node_le (snd kn) n'"
        by (simp add: extends_def list_all_iff)
      ultimately have "case map_of (Nodes g') (fst (ob, n)) of
              None \<Rightarrow> False | Some n' \<Rightarrow> node_le (snd (ob, n)) n'"
        by (rule bspec [rotated])
      then have "case map_of (Nodes g') ob of None \<Rightarrow> False | Some n' \<Rightarrow> node_le n n'"
        by (simp cong: option.case_cong)
      with Some show ?thesis by (auto simp: get_def split: option.splits)
    qed
  qed
qed

lemma ext_extends:
  assumes "ext g g'" and "distinct (map fst (Nodes g))"
  shows "extends g g'"
proof -
  from assms(1) have "node_le (Root g) (Root g')"
    by (auto simp: ext_def get_def dest: spec [where x = None])
  moreover have "case map_of (Nodes g') (fst kn) of None \<Rightarrow> False | Some n' \<Rightarrow> node_le (snd kn) n'"
    if "kn \<in> set (Nodes g)" for kn
  proof -
    from that assms(2) have "map_of (Nodes g) (fst kn) = Some (snd kn)" by simp
    then have "get g (Some (fst kn)) = Some (snd kn)" by (simp add: get_def)
    with assms(1) obtain n' where "get g' (Some (fst kn)) = Some n'" "node_le (snd kn) n'"
      by (auto simp: ext_def)
    then show ?thesis by (simp add: get_def)
  qed
  ultimately show ?thesis by (simp add: extends_def list_all_iff)
qed

subsection \<open>The primitives\<close>

lemma get_node:
  "node ob g = (k, g') \<Longrightarrow> get g k' = Some n \<Longrightarrow> get g' k' = Some n"
  by (cases k')
     (auto simp: node_def newNode_def get_def Let_def map_add_def
           split: option.splits prod.splits)

lemma node_key: "node ob g = (k, g') \<Longrightarrow> k = map_option origin ob"
  by (auto simp: node_def newNode_def Let_def split: option.splits prod.splits)

lemma node_has_node: "node ob g = (k, g') \<Longrightarrow> has_node g' k"
  by (auto simp: node_def newNode_def Let_def has_node_def get_def map_add_def
           split: option.splits prod.splits)

lemma node_ext: "node ob g = (k, g') \<Longrightarrow> ext g g'"
  unfolding ext_def by (blast intro: get_node node_le_refl)

lemma node_Root: "node ob g = (k, g') \<Longrightarrow> Root g' = Root g"
  by (auto simp: node_def newNode_def Let_def split: option.splits prod.splits)

lemma node_Nodes:
  "node ob g = (k, g') \<Longrightarrow>
   Nodes g' = Nodes g \<or>
   (\<exists>ob' n. k = Some ob' \<and> map_of (Nodes g) ob' = None \<and> Nodes g' = Nodes g @ [(ob', n)] \<and>
            obj n = Some ob' \<and> uses n = [] \<and> owns n = [] \<and> \<not> seen n \<and> \<not> quiet n)"
  by (auto simp: node_def newNode_def Let_def split: option.splits prod.splits)

lemma node_rels:
  assumes "node ob g = (k, g')"
  shows "uses_rel g' = uses_rel g" and "owns_rel g' = owns_rel g"
proof -
  have *: "get g' a = Some n \<Longrightarrow> get g a = Some n \<or> (uses n = [] \<and> owns n = [])" for a n
    using node_Nodes [OF assms] node_Root [OF assms]
    by (cases a) (auto simp: get_def map_add_def split: option.splits if_splits)
  show "uses_rel g' = uses_rel g"
    using * get_node [OF assms] by (fastforce simp: uses_rel_def)
  show "owns_rel g' = owns_rel g"
    using * get_node [OF assms] by (fastforce simp: owns_rel_def)
qed

lemma node_built:
  assumes "node ob g = (k, g')" and "built g"
  shows "built g'"
proof -
  from node_Nodes [OF assms(1)] node_Root [OF assms(1)] assms(2)
  have "wf_graph g'" "fresh g'"
    by (auto simp: built_def wf_graph_def fresh_def map_of_eq_None_iff)
  moreover have "targets_ok g'"
    using assms(2) node_rels [OF assms(1)] ext_has_node [OF node_ext [OF assms(1)]]
    by (auto simp: built_def targets_ok_def)
  ultimately show ?thesis by (simp add: built_def)
qed

lemma node_grows: "node ob g = (k, g') \<Longrightarrow> grows g g'"
  by (simp add: grows_def node_ext node_built)

definition add_use :: "key \<Rightarrow> node \<Rightarrow> node" where
  "add_use x n = n\<lparr>uses := uses n @ [x]\<rparr>"

definition add_own :: "key \<Rightarrow> node \<Rightarrow> node" where
  "add_own x n = n\<lparr>owns := owns n @ [x]\<rparr>"

lemma upd_add_ext:
  assumes "f = add_use x \<or> f = add_own x"
  shows "ext g (upd k f g)"
  unfolding ext_def using assms
  by (auto simp: get_upd node_le_def add_use_def add_own_def)

lemma in_Nodes_upd:
  "kn \<in> set (Nodes (upd k f g)) \<Longrightarrow>
   \<exists>n. (fst kn, n) \<in> set (Nodes g) \<and> (snd kn = n \<or> snd kn = f n)"
  by (cases kn; cases k) (auto simp: upd_def split: if_splits)

lemma Root_upd:
  "Root (upd k f g) = Root g \<or> Root (upd k f g) = f (Root g)"
  by (cases k) (auto simp: upd_def)

lemma upd_add_rels:
  assumes "f = add_use x \<or> f = add_own x"
  shows "uses_rel (upd k f g) \<union> owns_rel (upd k f g) \<subseteq> uses_rel g \<union> owns_rel g \<union> {(k, x)}"
  using assms
  by (auto simp: uses_rel_def owns_rel_def get_upd add_use_def add_own_def split: if_splits)

lemma upd_add_built:
  assumes f: "f = add_use x \<or> f = add_own x" and b: "built g" and x: "has_node g x"
  shows "built (upd k f g)"
proof -
  have obj: "obj (f n) = obj n" "seen (f n) = seen n" "quiet (f n) = quiet n" for n
    using f by (auto simp: add_use_def add_own_def)
  have nodes: "P (snd kn)" if "kn \<in> set (Nodes (upd k f g))"
    and "\<And>n. (fst kn, n) \<in> set (Nodes g) \<Longrightarrow> P n \<and> P (f n)" for kn P
    using in_Nodes_upd [OF that(1)] that(2) by auto
  from b have d: "distinct (map fst (Nodes g))"
    and o: "\<And>kn. kn \<in> set (Nodes g) \<Longrightarrow> obj (snd kn) = Some (fst kn)"
    and s: "\<And>kn. kn \<in> set (Nodes g) \<Longrightarrow> \<not> seen (snd kn) \<and> \<not> quiet (snd kn)"
    and r: "\<not> seen (Root g)" "\<not> quiet (Root g)"
    by (simp_all add: built_def wf_graph_def fresh_def list_all_iff)
  have "obj (snd kn) = Some (fst kn)" if "kn \<in> set (Nodes (upd k f g))" for kn
    by (rule nodes [OF that]) (use o obj in force)
  with d have "wf_graph (upd k f g)"
    by (simp add: wf_graph_def keys_upd list_all_iff)
  moreover have "\<not> seen (snd kn) \<and> \<not> quiet (snd kn)" if "kn \<in> set (Nodes (upd k f g))" for kn
    by (rule nodes [OF that]) (use s obj in force)
  with r Root_upd [of k f g] obj have "fresh (upd k f g)"
    by (auto simp: fresh_def list_all_iff)
  moreover have "targets_ok (upd k f g)"
    using upd_add_rels [OF f, of k g] b x
    by (fastforce simp: built_def targets_ok_def)
  ultimately show ?thesis by (simp add: built_def)
qed

lemma upd_add_grows:
  assumes "f = add_use x \<or> f = add_own x" and "built g \<longrightarrow> has_node g x"
  shows "grows g (upd k f g)"
  using assms by (auto simp: grows_def upd_add_ext upd_add_built)

lemma see_grows: "see ob owner g = Inr g' \<Longrightarrow> grows g g'"
proof -
  assume s: "see ob owner g = Inr g'"
  show ?thesis
  proof (cases ob)
    case None with s show ?thesis by (simp add: see_def)
  next
    case (Some o1)
    obtain k1 g1 where n1: "node ob g = (k1, g1)" by (cases "node ob g")
    show ?thesis
    proof (cases owner)
      case None
      with s Some n1 have "g' = g1" by (simp add: see_def)
      with n1 show ?thesis by (simp add: node_grows)
    next
      case (Some o2)
      obtain k2 g2 where n2: "node owner g1 = (k2, g2)" by (cases "node owner g1")
      from s \<open>ob = Some o1\<close> Some n1 n2
      have g': "g' = upd k2 (add_own k1) g2" by (auto simp: see_def add_own_def [abs_def])
      have "has_node g2 k1"
        using node_has_node [OF n1] ext_has_node [OF node_ext [OF n2]] by blast
      then have "grows g2 g'" unfolding g' by (intro upd_add_grows) auto
      with node_grows [OF n1] node_grows [OF n2] show ?thesis by (blast intro: grows_trans)
    qed
  qed
qed

lemma use_grows: "use p used by g = Inr g' \<Longrightarrow> grows g g'"
proof -
  assume u: "use p used by g = Inr g'"
  show ?thesis
  proof (cases "\<exists>ob. used = Some ob \<and> opkg ob = Some (Pkg p) \<and> \<not> ourIsIrrelevant ob")
    case False
    with u show ?thesis by (auto simp: use_def split: option.splits if_splits)
  next
    case True
    obtain k1 g1 where n1: "node used g = (k1, g1)" by (cases "node used g")
    obtain k2 g2 where n2: "node by g1 = (k2, g2)" by (cases "node by g1")
    from u True n1 n2 have g': "g' = upd k2 (add_use k1) g2"
      by (auto simp: use_def add_use_def [abs_def])
    have "has_node g2 k1"
      using node_has_node [OF n1] ext_has_node [OF node_ext [OF n2]] by blast
    then have "grows g2 g'" unfolding g' by (intro upd_add_grows) auto
    with node_grows [OF n1] node_grows [OF n2] show ?thesis by (blast intro: grows_trans)
  qed
qed

text \<open>What \<^verbatim>\<open>use\<close> adds: the edge from the node of \<open>by\<close> to the node of \<open>used\<close>.\<close>

lemma use_edge_added:
  assumes "use p (Some ob) by g = Inr g'" and "opkg ob = Some (Pkg p)" and "\<not> ourIsIrrelevant ob"
  shows "(map_option origin by, Some (origin ob)) \<in> uses_rel g'"
    and "has_node g' (Some (origin ob))" and "has_node g' (map_option origin by)"
proof -
  obtain k1 g1 where n1: "node (Some ob) g = (k1, g1)" by (cases "node (Some ob) g")
  obtain k2 g2 where n2: "node by g1 = (k2, g2)" by (cases "node by g1")
  from assms n1 n2 have g': "g' = upd k2 (add_use k1) g2"
    by (auto simp: use_def add_use_def [abs_def])
  have k1: "k1 = Some (origin ob)" and k2: "k2 = map_option origin by"
    using node_key [OF n1] node_key [OF n2] by simp_all
  have h1: "has_node g2 k1"
    using node_has_node [OF n1] ext_has_node [OF node_ext [OF n2]] by blast
  have h2: "has_node g2 k2" by (rule node_has_node [OF n2])
  from h2 show "(map_option origin by, Some (origin ob)) \<in> uses_rel g'"
    unfolding g' k1 [symmetric] k2 [symmetric]
    by (auto simp: uses_rel_def get_upd has_node_def add_use_def)
  from h1 show "has_node g' (Some (origin ob))" unfolding g' k1 by simp
  from h2 show "has_node g' (map_option origin by)" unfolding g' k2 by simp
qed

subsection \<open>The steps\<close>

lemma preservingI: "(\<And>g g'. f g = Inr g' \<Longrightarrow> grows g g') \<Longrightarrow> preserving f"
  by (simp add: preserving_def)

lemma preservingD: "preserving f \<Longrightarrow> f g = Inr g' \<Longrightarrow> grows g g'"
  by (simp add: preserving_def)

lemma preserving_ok [simp]: "preserving ok"
  by (simp add: preserving_def ok_def)

lemma preserving_fail [simp]: "preserving (fail e)"
  by (simp add: preserving_def fail_def)

lemma preserving_Inr [simp]: "preserving Inr"
  by (simp add: preserving_def)

lemma preserving_assert [simp]: "preserving (assert b)"
  by (simp add: assert_def)

lemma preserving_see [simp]: "preserving (see ob owner)"
  by (simp add: preserving_def see_grows)

lemma preserving_use [simp]: "preserving (use p used by)"
  by (simp add: preserving_def use_grows)

lemma seqE_grows:
  "(\<And>f. f \<in> set fs \<Longrightarrow> preserving f) \<Longrightarrow> seqE fs g = Inr g' \<Longrightarrow> grows g g'"
proof (induction fs arbitrary: g)
  case Nil
  then show ?case by simp
next
  case (Cons f fs)
  from Cons.prems(2) obtain g1 where f: "f g = Inr g1" and r: "seqE fs g1 = Inr g'"
    by (auto split: sum.splits)
  from Cons.prems(1) [of f] f have "grows g g1" by (auto simp: preserving_def)
  moreover from Cons.IH [OF _ r] Cons.prems(1) have "grows g1 g'" by simp
  ultimately show ?case by (rule grows_trans)
qed

lemma preserving_seqE: "(\<And>f. f \<in> set fs \<Longrightarrow> preserving f) \<Longrightarrow> preserving (seqE fs)"
  by (rule preservingI) (rule seqE_grows)

lemma preserving_seqE_map:
  "(\<And>x. x \<in> set xs \<Longrightarrow> preserving (f x)) \<Longrightarrow> preserving (seqE (map f xs))"
  by (rule preserving_seqE) auto

lemma preserving_seqE_Cons:
  "preserving f \<Longrightarrow> preserving (seqE fs) \<Longrightarrow> preserving (seqE (f # fs))"
  by (rule preservingI) (auto split: sum.splits dest: preservingD intro: grows_trans)

lemma preserving_seqE_Nil [simp]: "preserving (seqE [])"
  by (rule preservingI) simp

lemma preserving_modes:
  "preserving r \<Longrightarrow> preserving w \<Longrightarrow> preserving e \<Longrightarrow> preserving u \<Longrightarrow> preserving (modes m r w e u)"
  by (cases m) (simp_all add: modes_def)

lemma preserving_rd: "preserving r \<Longrightarrow> preserving (rd m r)"
  by (simp add: rd_def preserving_modes)

lemma preserving_smodes: "preserving s \<Longrightarrow> preserving c \<Longrightarrow> preserving (smodes m s c)"
  by (cases m) (simp_all add: smodes_def)

lemma preserving_st: "preserving s \<Longrightarrow> preserving (st m s)"
  by (simp add: st_def preserving_smodes)

lemma preserving_namedStep: "preserving r \<Longrightarrow> preserving (namedStep p n by r)"
  by (simp add: namedStep_def preserving_seqE_Cons)

lemma preserving_if:
  "(c \<Longrightarrow> preserving a) \<Longrightarrow> (\<not> c \<Longrightarrow> preserving b) \<Longrightarrow> preserving (if c then a else b)"
  by simp

lemma preserving_readSelection_walk: "preserving (readSelection_walk p idx base by)"
  by (induction idx arbitrary: base)
     (auto simp: preserving_seqE_Cons split: gotype.splits)

lemma preserving_readSelection [simp]: "preserving (readSelection p sel by)"
  by (simp add: readSelection_def preserving_seqE_Cons preserving_readSelection_walk)

lemma preserving_embeddedField_type [simp]: "preserving (embeddedField_type p e ob)"
  by (auto simp: embeddedField_type_def split: sum.splits option.splits gotype.splits prod.splits)

lemma preserving_compositeLitFields [simp]: "preserving (compositeLitFields p ty elts by)"
  by (auto simp: compositeLitFields_def preserving_seqE_map
           split: option.splits gotype.splits)

lemma preserving_conversion [simp]: "preserving (conversion p args ellipsis dst src by)"
  by (auto simp: conversion_def Let_def preserving_seqE_map preserving_seqE_Cons
           split: option.splits)

lemma get_interfaceTypes [simp]: "get (g\<lparr>interfaceTypes := xs\<rparr>) k = get g k"
  by (cases k) (simp_all add: get_def)

lemma get_namedTypes [simp]: "get (g\<lparr>namedTypes := xs\<rparr>) k = get g k"
  by (cases k) (simp_all add: get_def)

lemma grows_same_nodes:
  assumes "Root g' = Root g" and "Nodes g' = Nodes g"
  shows "grows g g'"
proof -
  from assms have "get g' k = get g k" for k by (cases k) (simp_all add: get_def)
  with assms show ?thesis
    by (simp add: grows_def ext_def built_def wf_graph_def fresh_def targets_ok_def
                  uses_rel_def owns_rel_def has_node_def)
qed

lemma preserving_registerInterface [simp]: "preserving (registerInterface ty methods)"
  by (auto simp: registerInterface_def preserving_def grows_same_nodes ok_def fail_def
           split: option.splits gotype.splits)

lemma assignDefine_grows:
  "assignDefine lhs by d g = Inr (d', g') \<Longrightarrow> grows g g'"
proof (induction lhs arbitrary: d g)
  case Nil
  then show ?case by simp
next
  case (Cons l ls)
  show ?case
  proof (cases l)
    case (Ident i)
    show ?thesis
    proof (cases "ObjectOf i")
      case None
      with Cons Ident show ?thesis by simp
    next
      case (Some ob)
      with Cons.prems Ident obtain g1 where s: "see (Some ob) by g = Inr g1"
        and r: "assignDefine ls by True g1 = Inr (d', g')"
        by (auto split: sum.splits)
      from see_grows [OF s] Cons.IH [OF r] show ?thesis by (rule grows_trans)
    qed
  qed (use Cons.prems in \<open>simp_all split: if_splits\<close>)
qed

lemma constRing_grows:
  "constRing p ns first prev lst g = Inr (first', prev', lst', g') \<Longrightarrow> grows g g'"
proof (induction ns arbitrary: first prev lst g)
  case Nil
  then show ?case by simp
next
  case (Cons n ns)
  show ?case
  proof (cases "Name n = ''_''")
    case True
    with Cons show ?thesis by simp
  next
    case False
    show ?thesis
    proof (cases "first = None")
      case True
      with False Cons show ?thesis by simp
    next
      case nf: False
      with False Cons.prems obtain g1 where u: "use p (ObjectOf n) prev g = Inr g1"
        and r: "constRing p ns first (ObjectOf n) (ObjectOf n) g1 = Inr (first', prev', lst', g')"
        by (auto split: sum.splits)
      from use_grows [OF u] Cons.IH [OF r] show ?thesis by (rule grows_trans)
    qed
  qed
qed

lemma constGroup_loop_grows:
  "constGroup_loop p ss first prev lst g = Inr (first', prev', lst', g') \<Longrightarrow> grows g g'"
proof (induction ss arbitrary: first prev lst g)
  case Nil
  then show ?case by simp
next
  case (Cons s ss)
  from Cons.prems obtain names f1 p1 l1 g1 where "specNames s = Inr names"
    and c: "constRing p names first prev lst g = Inr (f1, p1, l1, g1)"
    and r: "constGroup_loop p ss f1 p1 l1 g1 = Inr (first', prev', lst', g')"
    by (auto split: sum.splits prod.splits)
  from constRing_grows [OF c] Cons.IH [OF r] show ?case by (rule grows_trans)
qed

lemma preserving_constGroup [simp]: "preserving (constGroup p grp)"
proof (rule preservingI)
  fix g g' assume c: "constGroup p grp g = Inr g'"
  then obtain first prev lst g1 where
    l: "constGroup_loop p grp None None None g = Inr (first, prev, lst, g1)"
    and r: "(if first \<noteq> None \<and> first \<noteq> lst then use p first lst g1 else Inr g1) = Inr g'"
    by (auto simp: constGroup_def split: sum.splits prod.splits)
  from r have "grows g1 g'" by (auto split: if_splits dest: use_grows)
  with constGroup_loop_grows [OF l] show "grows g g'" by (rule grows_trans)
qed

lemma preserving_assign:
  assumes "preserving F"
  shows "preserving (\<lambda>g. case (if c then assignDefine lhs by False g else Inr (False, g)) of
                             Inl e \<Rightarrow> Inl e
                           | Inr (deferred, g1) \<Rightarrow> recovered deferred (F g1))"
proof (rule preservingI)
  fix g g'
  assume a: "(case (if c then assignDefine lhs by False g else Inr (False, g)) of
                Inl e \<Rightarrow> Inl e
              | Inr (deferred, g1) \<Rightarrow> recovered deferred (F g1)) = Inr g'"
  then obtain d g1 where 1: "(if c then assignDefine lhs by False g else Inr (False, g)) = Inr (d, g1)"
    and 2: "recovered d (F g1) = Inr g'"
    by (auto split: sum.splits prod.splits)
  from 1 have "grows g g1" by (auto split: if_splits dest: assignDefine_grows)
  moreover from 2 have "F g1 = Inr g'" by (auto simp: recovered_def split: sum.splits)
  with assms have "grows g1 g'" by (rule preservingD)
  ultimately show "grows g g'" by (rule grows_trans)
qed

lemma preserving_namedTypes [simp]:
  "preserving (\<lambda>g. Inr (if c then g\<lparr>namedTypes := namedTypes g @ [ob]\<rparr> else g))"
  by (rule preservingI) (auto simp: grows_same_nodes)

lemmas preserving_intros =
  preserving_modes preserving_rd preserving_smodes preserving_st preserving_namedStep
  preserving_seqE_map preserving_seqE_Cons preserving_assign

lemma walk_preserving:
  "\<forall>m by. preserving (walk_expr p e m by)"
  "\<forall>m by. preserving (walk_field p f m by)"
  "\<forall>m by. preserving (walk_stmt p s m by)"
  "\<forall>m by. preserving (walk_spec p sp m by)"
  "\<forall>by. preserving (walk_decl p d by)"
  apply (induction e and f and s and sp and d)
  apply (simp_all add: preserving_intros)
  apply (simp_all add: preserving_intros nth_mem
           split: option.split emode.split fmode.split smode.split spmode.split
                  token.split sum.split gotype.split list.split prod.split)
  apply (intro allI preserving_smodes preserving_assign preserving_seqE_Cons preserving_seqE_map)
  apply simp_all
  done

lemma preserving_walk [simp]:
  "preserving (walk_expr p e m by)" "preserving (walk_field p f fm by)"
  "preserving (walk_stmt p s sm by)" "preserving (walk_spec p sp spm by)"
  "preserving (walk_decl p d by)"
  by (simp_all add: walk_preserving)

lemma preserving_linknames [simp]: "preserving (linknames p)"
  unfolding linknames_def
  by (rule preserving_seqE_map) (simp split: option.split)

lemma preserving_decls [simp]: "preserving (decls p)"
  unfolding decls_def decl_def by (rule preserving_seqE_map) simp

lemma preserving_processMethodSet [simp]: "preserving (processMethodSet p named ms)"
proof -
  have "preserving (\<lambda>g. seqE (map (\<lambda>iface.
            case implements p (ObjType p named) iface ms of
              None \<Rightarrow> ok
            | Some sels \<Rightarrow> seqE (map (\<lambda>sel. readSelection p sel (Some named)) sels))
          (interfaceTypes g)) g)"
    by (rule preservingI, erule seqE_grows [rotated])
       (auto simp: preserving_seqE_map split: option.split)
  then show ?thesis
    unfolding processMethodSet_def
    by (intro preserving_seqE_Cons preserving_seqE_map) simp_all
qed

lemma preserving_methodSets [simp]: "preserving (methodSets p)"
  by (rule preservingI, unfold methodSets_def, erule seqE_grows [rotated])
     (auto simp: preserving_seqE_Cons)

lemma preserving_ignoreObject [simp]: "preserving (ignoreObject p ob)"
  unfolding ignoreObject_def
  by (intro preserving_seqE_Cons)
     (simp_all add: preserving_seqE_Cons preserving_seqE_map split: gotype.split)

lemma preserving_ignores [simp]: "preserving (ignores p)"
  by (rule preservingI, unfold ignores_def)
     (auto split: if_splits elim!: seqE_grows [rotated])

lemma preserving_entry [simp]: "preserving (entry p)"
  by (simp add: entry_def preserving_seqE_Cons)

lemma built_newGraph: "built newGraph"
  by (simp add: built_def wf_graph_def fresh_def targets_ok_def newGraph_def newNode_def
                uses_rel_def owns_rel_def get_def split: option.splits)

text \<open>The graph that \<^verbatim>\<open>entry\<close> returns is well formed, and no node of it is marked.\<close>

lemma entry_built: "entry p newGraph = Inr g \<Longrightarrow> built g"
  using preservingD [OF preserving_entry, of p newGraph g] built_newGraph
  by (simp add: grows_def)



lemma seqE_member:
  assumes "seqE fs g = Inr g'" and "f \<in> set fs" and "\<And>f. f \<in> set fs \<Longrightarrow> preserving f"
  shows "\<exists>g1 g2. grows g g1 \<and> f g1 = Inr g2 \<and> grows g2 g'"
  using assms
proof (induction fs arbitrary: g)
  case Nil
  then show ?case by simp
next
  case (Cons h fs)
  from Cons.prems(1) obtain g1 where h: "h g = Inr g1" and r: "seqE fs g1 = Inr g'"
    by (auto split: sum.splits)
  have p: "\<And>f. f \<in> set fs \<Longrightarrow> preserving f" using Cons.prems(3) by simp
  have hg: "grows g g1" using Cons.prems(3) [of h] h by (auto dest: preservingD)
  show ?case
  proof (cases "f = h")
    case True
    with h hg seqE_grows [OF p r] show ?thesis by (intro exI [of _ g] exI [of _ g1]) simp
  next
    case False
    with Cons.prems(2) have "f \<in> set fs" by simp
    from Cons.IH [OF r this p] obtain ga gb
      where "grows g1 ga" "f ga = Inr gb" "grows gb g'" by blast
    with hg show ?thesis by (blast intro: grows_trans)
  qed
qed

lemma grows_built_extends: "grows g g' \<Longrightarrow> built g \<Longrightarrow> extends g g' \<and> built g'"
  by (simp add: grows_def built_def wf_graph_def ext_extends)

text \<open>
  Every top-level declaration of a unit is walked in the course of \<^verbatim>\<open>entry\<close>, and
  what follows only adds to the graph the walk returned.
\<close>

lemma top_decl_ran:
  assumes e: "entry p newGraph = Inr g" and d: "d \<in> set (concat (map Decls (Files p)))"
  shows "\<exists>g0 g1. decl p d None g0 = Inr g1 \<and> extends g1 g"
proof -
  from e obtain ga gb gc where l: "linknames p newGraph = Inr ga" and ds: "decls p ga = Inr gb"
    and m: "methodSets p gb = Inr gc" and i: "ignores p gc = Inr g"
    by (auto simp: entry_def split: sum.splits)
  have ba: "built ga"
    using preservingD [OF preserving_linknames l] built_newGraph by (simp add: grows_def)
  from ds have "seqE (map (\<lambda>d. decl p d None) (concat (map Decls (Files p)))) ga = Inr gb"
    by (simp add: decls_def)
  moreover from d have "decl p d None \<in> set (map (\<lambda>d. decl p d None) (concat (map Decls (Files p))))"
    unfolding set_map by (rule imageI)
  moreover have "preserving f"
    if "f \<in> set (map (\<lambda>d. decl p d None) (concat (map Decls (Files p))))" for f
    using that by (auto simp: decl_def)
  ultimately have "\<exists>g0 g1. grows ga g0 \<and> decl p d None g0 = Inr g1 \<and> grows g1 gb"
    by (rule seqE_member)
  then obtain g0 g1 where 0: "grows ga g0" and 1: "decl p d None g0 = Inr g1" and 2: "grows g1 gb"
    by blast
  from 0 ba have "built g0" by (simp add: grows_def)
  with preservingD [of "decl p d None", OF _ 1] have b1: "built g1"
    by (simp add: decl_def grows_def)
  from 2 preservingD [OF preserving_methodSets m] preservingD [OF preserving_ignores i]
  have "grows g1 g" by (blast intro: grows_trans)
  with b1 have "extends g1 g" by (simp add: grows_built_extends)
  with 1 show ?thesis by blast
qed

lemma reach_has_node:
  assumes "built g" and "k \<in> reach g"
  shows "has_node g k"
proof -
  from assms(2) have "(None, k) \<in> (uses_rel g)\<^sup>*" by (simp add: reach_def)
  then show ?thesis
  proof (cases rule: rtranclE)
    case base
    then show ?thesis by simp
  next
    case (step y)
    with assms(1) show ?thesis by (auto simp: built_def targets_ok_def)
  qed
qed

lemma run_results:
  assumes "run p = Some (Inr r)"
  shows "entry p newGraph = Inr (graph_of p) \<and> results p (graph_of p) = Some (Inr r) \<and>
         built (graph_of p)"
proof -
  from assms obtain g where e: "entry p newGraph = Inr g" and r: "results p g = Some (Inr r)"
    by (auto simp: run_def split: sum.splits)
  then show ?thesis using entry_built [OF e] by (simp add: graph_of_def)
qed

text \<open>What a run reports, in terms of the graph that \<^verbatim>\<open>entry\<close> built.\<close>

lemma run_used_iff:
  assumes "run p = Some (Inr (used, unused))"
  shows "ob \<in> set used \<longleftrightarrow> reportable p ob \<and> Some ob \<in> reach (graph_of p)"
    and "ob \<in> set unused \<longleftrightarrow>
           has_node (graph_of p) (Some ob) \<and> reportable p ob \<and>
           Some ob \<notin> reach (graph_of p) \<and> Some ob \<notin> quieted (graph_of p)"
proof -
  from run_results [OF assms] have r: "results p (graph_of p) = Some (Inr (used, unused))"
    and b: "built (graph_of p)" by simp_all
  from b have wf: "wf_graph (graph_of p)" and fr: "fresh (graph_of p)" by (simp_all add: built_def)
  from results_characterization [OF wf fr r]
  have u: "set used = {ob. has_node (graph_of p) (Some ob) \<and> reportable p ob \<and>
                          Some ob \<in> reach (graph_of p)}"
    and un: "set unused = {ob. has_node (graph_of p) (Some ob) \<and> reportable p ob \<and>
                          Some ob \<notin> reach (graph_of p) \<and> Some ob \<notin> quieted (graph_of p)}"
    by simp_all
  from u reach_has_node [OF b]
  show "ob \<in> set used \<longleftrightarrow> reportable p ob \<and> Some ob \<in> reach (graph_of p)" by auto
  from un show "ob \<in> set unused \<longleftrightarrow>
           has_node (graph_of p) (Some ob) \<and> reportable p ob \<and>
           Some ob \<notin> reach (graph_of p) \<and> Some ob \<notin> quieted (graph_of p)" by simp
qed


section \<open>The ring of a constant group\<close>

text \<open>
  The names of a group of constant specifications that take part in the ring: all names but
  the blank ones. \<open>const_names\<close> says what the type checker guarantees of them: each has its
  object, a constant of the package under analysis.
\<close>

fun names_of :: "spec \<Rightarrow> ident list" where
  "names_of (ValueSpec brk names typ vals) = names"
| "names_of _ = []"

definition ringNames :: "spec list \<Rightarrow> ident list" where
  "ringNames grp = filter (\<lambda>n. Name n \<noteq> ''_'') (concat (map names_of grp))"

definition ckey :: "pass \<Rightarrow> key \<Rightarrow> bool" where
  "ckey p k = (case k of None \<Rightarrow> False | Some c \<Rightarrow> oclass c = Const \<and> opkg c = Some (Pkg p))"

definition const_names :: "pass \<Rightarrow> ident list \<Rightarrow> bool" where
  "const_names p ns = list_all (\<lambda>n. ckey p (ObjectOf n)) ns"

definition ring_inv :: "pass \<Rightarrow> graph \<Rightarrow> key set \<Rightarrow> key \<Rightarrow> key \<Rightarrow> bool" where
  "ring_inv p g S first lst =
     ((\<forall>x\<in>S. ckey p x) \<and>
      (if first = None then S = {}
       else first \<in> S \<and> lst \<in> S \<and>
            (\<forall>x\<in>S. (first, x) \<in> (uses_rel g)\<^sup>* \<and> (x, lst) \<in> (uses_rel g)\<^sup>*)))"

lemma ckey_use:
  assumes "ckey p k" and "ckey p by" and "use p k by g = Inr g'"
  shows "(by, k) \<in> uses_rel g'"
proof -
  from assms(1) obtain c where k: "k = Some c" and c: "oclass c = Const" "opkg c = Some (Pkg p)"
    by (auto simp: ckey_def split: option.splits)
  from assms(2) obtain b where b: "by = Some b" "oclass b = Const"
    by (auto simp: ckey_def split: option.splits)
  from c b have "origin c = c" "origin b = b" "\<not> ourIsIrrelevant c"
    by (simp_all add: origin_def ourIsIrrelevant_def)
  with use_edge_added(1) [of p c "by" g g'] assms(3) k c b show ?thesis by simp
qed

lemma ring_inv_mono:
  assumes "ring_inv p g S first lst" and "grows g g'"
  shows "ring_inv p g' S first lst"
proof -
  from assms(2) have "uses_rel g \<subseteq> uses_rel g'" by (simp add: grows_def ext_uses_rel)
  then have "(uses_rel g)\<^sup>* \<subseteq> (uses_rel g')\<^sup>*" by (rule rtrancl_mono)
  with assms(1) show ?thesis by (auto simp: ring_inv_def split: if_splits)
qed

lemma constRing_ring:
  assumes "constRing p ns first prev lst g = Inr (first', prev', lst', g')"
    and "const_names p (filter (\<lambda>n. Name n \<noteq> ''_'') ns)"
    and "ring_inv p g S first lst" and "prev = lst"
  shows "ring_inv p g' (S \<union> ObjectOf ` {n \<in> set ns. Name n \<noteq> ''_''}) first' lst' \<and> prev' = lst'"
  using assms
proof (induction ns arbitrary: first prev lst g S)
  case Nil
  then show ?case by auto
next
  case (Cons n ns)
  show ?case
  proof (cases "Name n = ''_''")
    case True
    with Cons.prems have "constRing p ns first prev lst g = Inr (first', prev', lst', g')"
      and "const_names p (filter (\<lambda>n. Name n \<noteq> ''_'') ns)" by simp_all
    from Cons.IH [OF this Cons.prems(3,4)] True show ?thesis
      by (simp add: Collect_disj_eq conj_disj_distribR cong: conj_cong)
  next
    case False
    with Cons.prems(2) have cn: "ckey p (ObjectOf n)"
      and cns: "const_names p (filter (\<lambda>n. Name n \<noteq> ''_'') ns)"
      by (simp_all add: const_names_def)
    have set_eq: "S \<union> ObjectOf ` {m \<in> set (n # ns). Name m \<noteq> ''_''} =
                  (S \<union> {ObjectOf n}) \<union> ObjectOf ` {m \<in> set ns. Name m \<noteq> ''_''}"
      using False by auto
    show ?thesis
    proof (cases "first = None")
      case True
      with False Cons.prems(1)
      have r: "constRing p ns (ObjectOf n) (ObjectOf n) (ObjectOf n) g = Inr (first', prev', lst', g')"
        by simp
      from True Cons.prems(3) have "S = {}" by (simp add: ring_inv_def)
      with cn have "ring_inv p g (S \<union> {ObjectOf n}) (ObjectOf n) (ObjectOf n)"
        by (auto simp: ring_inv_def ckey_def split: option.splits)
      from Cons.IH [OF r cns this refl] show ?thesis unfolding set_eq .
    next
      case nf: False
      with False Cons.prems(1) obtain g1 where u: "use p (ObjectOf n) prev g = Inr g1"
        and r: "constRing p ns first (ObjectOf n) (ObjectOf n) g1 = Inr (first', prev', lst', g')"
        by (auto split: sum.splits)
      from Cons.prems(3) nf have S: "\<forall>x\<in>S. ckey p x" "first \<in> S" "lst \<in> S"
        and paths: "\<forall>x\<in>S. (first, x) \<in> (uses_rel g)\<^sup>* \<and> (x, lst) \<in> (uses_rel g)\<^sup>*"
        by (simp_all add: ring_inv_def)
      from S Cons.prems(4) have "ckey p prev" by simp
      from ckey_use [OF cn this u] Cons.prems(4) have e: "(lst, ObjectOf n) \<in> uses_rel g1" by simp
      have m: "(uses_rel g)\<^sup>* \<subseteq> (uses_rel g1)\<^sup>*"
        using use_grows [OF u] by (intro rtrancl_mono) (simp add: grows_def ext_uses_rel)
      have "ring_inv p g1 (S \<union> {ObjectOf n}) first (ObjectOf n)"
        unfolding ring_inv_def
      proof (intro conjI)
        show "\<forall>x\<in>S \<union> {ObjectOf n}. ckey p x" using S cn by simp
        have a: "(first, x) \<in> (uses_rel g1)\<^sup>* \<and> (x, ObjectOf n) \<in> (uses_rel g1)\<^sup>*"
          if "x \<in> S" for x
          using paths that m e by (meson rtrancl.rtrancl_into_rtrancl subsetD)
        have b: "(first, ObjectOf n) \<in> (uses_rel g1)\<^sup>*"
          using a [OF S(3)] e by (meson rtrancl.rtrancl_into_rtrancl)
        from a b S nf
        show "if first = None then S \<union> {ObjectOf n} = {}
              else first \<in> S \<union> {ObjectOf n} \<and> ObjectOf n \<in> S \<union> {ObjectOf n} \<and>
                   (\<forall>x\<in>S \<union> {ObjectOf n}. (first, x) \<in> (uses_rel g1)\<^sup>* \<and>
                                           (x, ObjectOf n) \<in> (uses_rel g1)\<^sup>*)"
          by auto
      qed
      from Cons.IH [OF r cns this refl] show ?thesis unfolding set_eq .
    qed
  qed
qed

lemma constGroup_loop_ring:
  assumes "constGroup_loop p ss first prev lst g = Inr (first', prev', lst', g')"
    and "const_names p (ringNames ss)"
    and "ring_inv p g S first lst" and "prev = lst"
  shows "ring_inv p g' (S \<union> ObjectOf ` set (ringNames ss)) first' lst' \<and> prev' = lst'"
  using assms
proof (induction ss arbitrary: first prev lst g S)
  case Nil
  then show ?case by (auto simp: ringNames_def)
next
  case (Cons s ss)
  from Cons.prems(1) obtain names f1 p1 l1 g1 where sn: "specNames s = Inr names"
    and c: "constRing p names first prev lst g = Inr (f1, p1, l1, g1)"
    and r: "constGroup_loop p ss f1 p1 l1 g1 = Inr (first', prev', lst', g')"
    by (auto split: sum.splits prod.splits)
  from sn have ns: "names_of s = names" by (cases s) auto
  from Cons.prems(2) ns have 1: "const_names p (filter (\<lambda>n. Name n \<noteq> ''_'') names)"
    and 2: "const_names p (ringNames ss)"
    by (simp_all add: ringNames_def const_names_def)
  from constRing_ring [OF c 1 Cons.prems(3,4)]
  have i: "ring_inv p g1 (S \<union> ObjectOf ` {n \<in> set names. Name n \<noteq> ''_''}) f1 l1" and "p1 = l1"
    by simp_all
  from Cons.IH [OF r 2 this]
  have "ring_inv p g' (S \<union> ObjectOf ` {n \<in> set names. Name n \<noteq> ''_''} \<union>
                      ObjectOf ` set (ringNames ss)) first' lst'" and pl: "prev' = lst'"
    by simp_all
  moreover have "S \<union> ObjectOf ` {n \<in> set names. Name n \<noteq> ''_''} \<union> ObjectOf ` set (ringNames ss) =
                 S \<union> ObjectOf ` set (ringNames (s # ss))"
    using ns by (auto simp: ringNames_def)
  ultimately show ?case by simp
qed

text \<open>After the rule has run on a group, every member of the ring reaches every other.\<close>

lemma constGroup_ring:
  assumes c: "constGroup p grp g = Inr g'" and cn: "const_names p (ringNames grp)"
    and x: "x \<in> ObjectOf ` set (ringNames grp)" and y: "y \<in> ObjectOf ` set (ringNames grp)"
  shows "(x, y) \<in> (uses_rel g')\<^sup>*"
proof -
  from c obtain first prev lst g1 where
    l: "constGroup_loop p grp None None None g = Inr (first, prev, lst, g1)"
    and r: "(if first \<noteq> None \<and> first \<noteq> lst then use p first lst g1 else Inr g1) = Inr g'"
    by (auto simp: constGroup_def split: sum.splits prod.splits)
  have "ring_inv p g {} None None" by (simp add: ring_inv_def)
  from constGroup_loop_ring [OF l cn this refl]
  have i: "ring_inv p g1 (ObjectOf ` set (ringNames grp)) first lst" by simp
  with x have nf: "first \<noteq> None" by (auto simp: ring_inv_def split: if_splits)
  with i x y have S: "ckey p first" "ckey p lst"
    and px: "(x, lst) \<in> (uses_rel g1)\<^sup>*" and py: "(first, y) \<in> (uses_rel g1)\<^sup>*"
    by (auto simp: ring_inv_def)
  show ?thesis
  proof (cases "first = lst")
    case True
    with r px py show ?thesis by (auto intro: rtrancl_trans)
  next
    case False
    with nf r have u: "use p first lst g1 = Inr g'" by simp
    have m: "(uses_rel g1)\<^sup>* \<subseteq> (uses_rel g')\<^sup>*"
      using use_grows [OF u] by (intro rtrancl_mono) (simp add: grows_def ext_uses_rel)
    from ckey_use [OF S u] have "(lst, first) \<in> uses_rel g'" .
    with px py m show ?thesis
      by (meson rtrancl.rtrancl_into_rtrancl rtrancl_trans subsetD)
  qed
qed

lemma decl_const_group:
  assumes "decl p (GenDecl CONST_tok specs) by g = Inr g'" and "grp \<in> set (GroupSpecs specs)"
  shows "\<exists>g1 g2. constGroup p grp g1 = Inr g2 \<and> grows g2 g'"
proof -
  from assms(1) obtain ga where
    s: "seqE (map (constGroup p) (GroupSpecs specs)) ga = Inr g'"
    by (auto simp: decl_def split: sum.splits)
  moreover from assms(2) have "constGroup p grp \<in> set (map (constGroup p) (GroupSpecs specs))"
    by simp
  moreover have "preserving f" if "f \<in> set (map (constGroup p) (GroupSpecs specs))" for f
    using that by auto
  ultimately have "\<exists>g1 g2. grows ga g1 \<and> constGroup p grp g1 = Inr g2 \<and> grows g2 g'"
    by (rule seqE_member)
  then show ?thesis by blast
qed


subsection \<open>The use edges a step adds\<close>

text \<open>\<open>adds_only E f\<close>: every use edge that the step \<open>f\<close> adds is in \<open>E\<close>.\<close>

definition adds_only :: "(key \<times> key) set \<Rightarrow> step \<Rightarrow> bool" where
  "adds_only E f = (\<forall>g g'. f g = Inr g' \<longrightarrow> uses_rel g' \<subseteq> uses_rel g \<union> E)"

lemma adds_onlyI: "(\<And>g g'. f g = Inr g' \<Longrightarrow> uses_rel g' \<subseteq> uses_rel g \<union> E) \<Longrightarrow> adds_only E f"
  by (simp add: adds_only_def)

lemma adds_onlyD: "adds_only E f \<Longrightarrow> f g = Inr g' \<Longrightarrow> uses_rel g' \<subseteq> uses_rel g \<union> E"
  by (simp add: adds_only_def)

lemma adds_only_mono: "adds_only E f \<Longrightarrow> E \<subseteq> E' \<Longrightarrow> adds_only E' f"
  unfolding adds_only_def by blast

lemma adds_only_ok [simp]: "adds_only E ok"
  by (simp add: adds_only_def ok_def)

lemma adds_only_fail [simp]: "adds_only E (fail e)"
  by (simp add: adds_only_def fail_def)

lemma adds_only_assert [simp]: "adds_only E (assert b)"
  by (simp add: assert_def)

lemma upd_add_own_uses: "uses_rel (upd k (add_own x) g) = uses_rel g"
  by (auto simp: uses_rel_def get_upd add_own_def split: if_splits)

lemma upd_add_use_uses: "uses_rel (upd k (add_use x) g) \<subseteq> uses_rel g \<union> {(k, x)}"
  by (auto simp: uses_rel_def get_upd add_use_def split: if_splits)

lemma see_uses_rel: "see ob owner g = Inr g' \<Longrightarrow> uses_rel g' = uses_rel g"
proof -
  assume s: "see ob owner g = Inr g'"
  obtain k1 g1 where n1: "node ob g = (k1, g1)" by (cases "node ob g")
  obtain k2 g2 where n2: "node owner g1 = (k2, g2)" by (cases "node owner g1")
  from s n1 n2 have "g' = g1 \<or> g' = upd k2 (add_own k1) g2"
    by (auto simp: see_def add_own_def [abs_def] split: option.splits)
  with node_rels(1) [OF n1] node_rels(1) [OF n2] show ?thesis
    by (auto simp: upd_add_own_uses)
qed

lemma adds_only_see [simp]: "adds_only E (see ob owner)"
  by (simp add: adds_only_def see_uses_rel)

lemma use_uses_rel:
  assumes "use p used by g = Inr g'"
  shows "uses_rel g' \<subseteq> uses_rel g \<union> {(map_option origin by, map_option origin used)}"
proof (cases "\<exists>ob. used = Some ob \<and> opkg ob = Some (Pkg p) \<and> \<not> ourIsIrrelevant ob")
  case False
  with assms show ?thesis by (auto simp: use_def split: option.splits if_splits)
next
  case True
  obtain k1 g1 where n1: "node used g = (k1, g1)" by (cases "node used g")
  obtain k2 g2 where n2: "node by g1 = (k2, g2)" by (cases "node by g1")
  from assms True n1 n2 have g': "g' = upd k2 (add_use k1) g2"
    by (auto simp: use_def add_use_def [abs_def])
  from node_key [OF n1] node_key [OF n2] node_rels(1) [OF n1] node_rels(1) [OF n2]
    upd_add_use_uses [of k2 k1 g2]
  show ?thesis unfolding g' by auto
qed

lemma adds_only_use:
  "(map_option origin by, map_option origin used) \<in> E \<Longrightarrow> adds_only E (use p used by)"
  by (rule adds_onlyI) (use use_uses_rel in blast)

lemma adds_only_seqE: "(\<And>f. f \<in> set fs \<Longrightarrow> adds_only E f) \<Longrightarrow> adds_only E (seqE fs)"
proof (induction fs)
  case Nil
  show ?case by (simp add: adds_only_def)
next
  case (Cons f fs)
  have "adds_only E f" "adds_only E (seqE fs)" using Cons by simp_all
  then show ?case
    unfolding adds_only_def by (auto split: sum.splits) blast
qed

lemma adds_only_seqE_map:
  "(\<And>x. x \<in> set xs \<Longrightarrow> adds_only E (f x)) \<Longrightarrow> adds_only E (seqE (map f xs))"
  by (rule adds_only_seqE) auto

lemma adds_only_seqE_Cons:
  "adds_only E f \<Longrightarrow> adds_only E (seqE fs) \<Longrightarrow> adds_only E (seqE (f # fs))"
  unfolding adds_only_def by (auto split: sum.splits) blast

lemma adds_only_seqE_Nil [simp]: "adds_only E (seqE [])"
  by (simp add: adds_only_def)

text \<open>The nodes that use a node: the keys with a use edge to it.\<close>

definition users :: "graph \<Rightarrow> key \<Rightarrow> key list" where
  "users g k = filter (\<lambda>a. use_edge g a k) (None # map (\<lambda>kn. Some (fst kn)) (Nodes g))"

lemma users_iff: "a \<in> set (users g k) \<longleftrightarrow> (a, k) \<in> uses_rel g"
proof -
  have "a \<in> set (None # map (\<lambda>kn. Some (fst kn)) (Nodes g))" if "(a, k) \<in> uses_rel g"
  proof (cases a)
    case None
    then show ?thesis by simp
  next
    case (Some ob)
    with that obtain n where "map_of (Nodes g) ob = Some n" by (auto simp: uses_rel_def get_def)
    then have "(ob, n) \<in> set (Nodes g)" by (rule map_of_SomeD)
    with Some show ?thesis by force
  qed
  then show ?thesis by (auto simp: users_def use_edge_iff)
qed

text \<open>A set of nodes that only nodes of the set use is not reached from Root.\<close>

lemma not_reached:
  assumes "\<And>a b. (a, b) \<in> uses_rel g \<Longrightarrow> b \<in> A \<Longrightarrow> a \<in> A" and "None \<notin> A" and "k \<in> A"
  shows "k \<notin> reach g"
proof
  assume "k \<in> reach g"
  then have "(None, k) \<in> (uses_rel g)\<^sup>*" by (simp add: reach_def)
  then have "k \<in> A \<longrightarrow> None \<in> A"
    by (induction rule: rtrancl_induct) (use assms(1) in blast)+
  with assms(2,3) show False by simp
qed


section \<open>Conversions between struct types\<close>

text \<open>
  \<open>fieldOf p ob\<close>: the object is a named field of a struct of the package under analysis.
  \<open>conv_edges fd fs\<close> are the edges between the fields of two structs at the same index.
\<close>

definition fieldOf :: "pass \<Rightarrow> object \<Rightarrow> bool" where
  "fieldOf p ob = (oclass ob = Var \<and> oisfield ob \<and> oname ob \<noteq> [] \<and> opkg ob = Some (Pkg p))"

definition conv_edges :: "(object \<times> gotype) list \<Rightarrow> (object \<times> gotype) list \<Rightarrow> (key \<times> key) set" where
  "conv_edges fd fs =
     (\<Union>i\<in>{..<length fd}.
        {(Some (origin (fst (fs ! i))), Some (origin (fst (fd ! i)))),
         (Some (origin (fst (fd ! i))), Some (origin (fst (fs ! i))))})"

definition link :: "pass \<Rightarrow> (object \<times> gotype) list \<Rightarrow> (object \<times> gotype) list \<Rightarrow> nat \<Rightarrow> step" where
  "link p fd fs i = seqE [use p (Some (fst (fd ! i))) (Some (fst (fs ! i))),
                          use p (Some (fst (fs ! i))) (Some (fst (fd ! i)))]"

lemma fieldOf_reportable: "fieldOf p ob \<Longrightarrow> reportable p (origin ob)"
  by (simp add: fieldOf_def reportable_def origin_def)

lemma conversion_structs_eq:
  assumes "CoreType (Dereference dst) = Some (Struct sd fd)"
    and "CoreType (Dereference src) = Some (Struct ss fs)"
  shows "conversion p [arg] False (Some dst) (Some src) by =
         seqE [assert (length fd = length fs), seqE (map (link p fd fs) [0 ..< length fd])]"
  using assms by (simp add: conversion_def structFields_def link_def [abs_def])

lemma link_edges:
  assumes "link p fd fs i g = Inr g'"
  shows "fieldOf p (fst (fd ! i)) \<Longrightarrow>
           (Some (origin (fst (fs ! i))), Some (origin (fst (fd ! i)))) \<in> uses_rel g' \<and>
           has_node g' (Some (origin (fst (fd ! i))))"
    and "fieldOf p (fst (fs ! i)) \<Longrightarrow>
           (Some (origin (fst (fd ! i))), Some (origin (fst (fs ! i)))) \<in> uses_rel g' \<and>
           has_node g' (Some (origin (fst (fs ! i))))"
proof -
  from assms obtain g1 where 1: "use p (Some (fst (fd ! i))) (Some (fst (fs ! i))) g = Inr g1"
    and 2: "use p (Some (fst (fs ! i))) (Some (fst (fd ! i))) g1 = Inr g'"
    by (auto simp: link_def split: sum.splits)
  have irr: "\<not> ourIsIrrelevant ob" if "fieldOf p ob" for ob
    using that by (simp add: fieldOf_def ourIsIrrelevant_def)
  show "(Some (origin (fst (fs ! i))), Some (origin (fst (fd ! i)))) \<in> uses_rel g' \<and>
        has_node g' (Some (origin (fst (fd ! i))))" if f: "fieldOf p (fst (fd ! i))"
  proof -
    from f have "opkg (fst (fd ! i)) = Some (Pkg p)" by (simp add: fieldOf_def)
    from use_edge_added(1,2) [OF 1 this irr [OF f]] use_grows [OF 2]
    show ?thesis by (auto simp: grows_def dest: ext_uses_rel ext_has_node)
  qed
  show "(Some (origin (fst (fd ! i))), Some (origin (fst (fs ! i)))) \<in> uses_rel g' \<and>
        has_node g' (Some (origin (fst (fs ! i))))" if f: "fieldOf p (fst (fs ! i))"
  proof -
    from f have "opkg (fst (fs ! i)) = Some (Pkg p)" by (simp add: fieldOf_def)
    from use_edge_added(1,2) [OF 2 this irr [OF f]] show ?thesis by simp
  qed
qed

lemma preserving_link [simp]: "preserving (link p fd fs i)"
  by (simp add: link_def preserving_seqE_Cons)

lemma adds_only_link: "i < length fd \<Longrightarrow> adds_only (conv_edges fd fs) (link p fd fs i)"
  unfolding link_def
  by (intro adds_only_seqE_Cons adds_only_use) (auto simp: conv_edges_def)

text \<open>
  What the conversion rule does to the graph when both sides are structs: it fails unless
  they have as many fields, it links the fields at the same index in both directions, and
  it adds no other use edge.
\<close>

lemma conversion_structs:
  assumes c: "conversion p [arg] False (Some dst) (Some src) by g = Inr g'"
    and d: "CoreType (Dereference dst) = Some (Struct sd fd)"
    and s: "CoreType (Dereference src) = Some (Struct ss fs)"
  shows "length fd = length fs"
    and "uses_rel g' \<subseteq> uses_rel g \<union> conv_edges fd fs"
    and "i < length fd \<Longrightarrow> fieldOf p (fst (fd ! i)) \<Longrightarrow>
           (Some (origin (fst (fs ! i))), Some (origin (fst (fd ! i)))) \<in> uses_rel g' \<and>
           has_node g' (Some (origin (fst (fd ! i))))"
    and "i < length fd \<Longrightarrow> fieldOf p (fst (fs ! i)) \<Longrightarrow>
           (Some (origin (fst (fd ! i))), Some (origin (fst (fs ! i)))) \<in> uses_rel g' \<and>
           has_node g' (Some (origin (fst (fs ! i))))"
proof -
  from c have c': "seqE [assert (length fd = length fs),
                         seqE (map (link p fd fs) [0 ..< length fd])] g = Inr g'"
    by (simp add: conversion_structs_eq [OF d s])
  then show len: "length fd = length fs"
    by (auto simp: assert_def ok_def fail_def split: if_splits)
  with c' have l: "seqE (map (link p fd fs) [0 ..< length fd]) g = Inr g'"
    by (auto simp: assert_def ok_def split: sum.splits)
  have "adds_only (conv_edges fd fs) (seqE (map (link p fd fs) [0 ..< length fd]))"
    by (rule adds_only_seqE_map) (simp add: adds_only_link)
  from adds_onlyD [OF this l] show "uses_rel g' \<subseteq> uses_rel g \<union> conv_edges fd fs" .
  have step: "\<exists>g1 g2. link p fd fs i g1 = Inr g2 \<and> grows g2 g'" if "i < length fd"
  proof -
    from that have "link p fd fs i \<in> set (map (link p fd fs) [0 ..< length fd])" by simp
    moreover have "preserving f" if "f \<in> set (map (link p fd fs) [0 ..< length fd])" for f
      using that by auto
    ultimately have "\<exists>g1 g2. grows g g1 \<and> link p fd fs i g1 = Inr g2 \<and> grows g2 g'"
      by (rule seqE_member [OF l])
    then show ?thesis by blast
  qed
  show "(Some (origin (fst (fs ! i))), Some (origin (fst (fd ! i)))) \<in> uses_rel g' \<and>
        has_node g' (Some (origin (fst (fd ! i))))"
    if "i < length fd" "fieldOf p (fst (fd ! i))"
  proof -
    from step [OF that(1)] obtain g1 g2 where "link p fd fs i g1 = Inr g2" "grows g2 g'" by blast
    with link_edges(1) [OF this(1) that(2)] show ?thesis
      by (auto simp: grows_def dest: ext_uses_rel ext_has_node)
  qed
  show "(Some (origin (fst (fd ! i))), Some (origin (fst (fs ! i)))) \<in> uses_rel g' \<and>
        has_node g' (Some (origin (fst (fs ! i))))"
    if "i < length fd" "fieldOf p (fst (fs ! i))"
  proof -
    from step [OF that(1)] obtain g1 g2 where "link p fd fs i g1 = Inr g2" "grows g2 g'" by blast
    with link_edges(2) [OF this(1) that(2)] show ?thesis
      by (auto simp: grows_def dest: ext_uses_rel ext_has_node)
  qed
qed


text \<open>The nodes that own a node.\<close>

definition owners :: "graph \<Rightarrow> key \<Rightarrow> key list" where
  "owners g k = filter (\<lambda>a. own_edge g a k) (None # map (\<lambda>kn. Some (fst kn)) (Nodes g))"

lemma owners_iff: "a \<in> set (owners g k) \<longleftrightarrow> (a, k) \<in> owns_rel g"
proof -
  have "a \<in> set (None # map (\<lambda>kn. Some (fst kn)) (Nodes g))" if "(a, k) \<in> owns_rel g"
  proof (cases a)
    case None
    then show ?thesis by simp
  next
    case (Some ob)
    with that obtain n where "map_of (Nodes g) ob = Some n" by (auto simp: owns_rel_def get_def)
    then have "(ob, n) \<in> set (Nodes g)" by (rule map_of_SomeD)
    with Some show ?thesis by force
  qed
  then show ?thesis by (auto simp: owners_def own_edge_iff)
qed

text \<open>A node that nothing uses and nothing owns is reported as unused, when it is reported.\<close>

lemma unreferenced_unused:
  assumes r: "run p = Some (Inr (used, unused))"
    and h: "has_node (graph_of p) (Some v)" and rep: "reportable p v"
    and u: "users (graph_of p) (Some v) = []" and o: "owners (graph_of p) (Some v) = []"
  shows "v \<in> set unused" and "v \<notin> set used"
proof -
  have nr: "Some v \<notin> reach (graph_of p)"
  proof (rule not_reached [where A = "{Some v}"])
    fix a b assume "(a, b) \<in> uses_rel (graph_of p)" "b \<in> {Some v}"
    with u users_iff [of a "graph_of p" "Some v"] show "a \<in> {Some v}" by simp
  qed simp_all
  have nq: "Some v \<notin> quieted (graph_of p)"
  proof
    assume "Some v \<in> quieted (graph_of p)"
    then obtain a where "(a, Some v) \<in> (owns_rel (graph_of p))\<^sup>+" by (auto simp: quieted_def)
    then obtain z where "(z, Some v) \<in> owns_rel (graph_of p)" by (meson tranclD2)
    with o owners_iff [of z "graph_of p" "Some v"] show False by simp
  qed
  from nr nq h rep run_used_iff [OF r] show "v \<in> set unused" "v \<notin> set used" by simp_all
qed


section \<open>When the analysis returns\<close>

text \<open>
  \<^verbatim>\<open>quieten\<close> follows the owns edges without a guard, so it returns exactly when it
  meets no cycle. Ownership follows the nesting of declarations, which has no cycle; the
  lemmas below show that the analysis returns a result whenever the owns relation of the
  graph is acyclic. \<open>ranked rk g\<close> is a test for it: every node has a greater rank than the
  nodes it owns.
\<close>

definition ranked :: "(key \<Rightarrow> nat) \<Rightarrow> graph \<Rightarrow> bool" where
  "ranked rk g =
     (list_all (\<lambda>c. rk c < rk None) (owns (Root g)) \<and>
      list_all (\<lambda>kn. list_all (\<lambda>c. rk c < rk (Some (fst kn))) (owns (snd kn))) (Nodes g))"

text \<open>The rank that the examples use: the nodes of \<open>ks\<close> above all others.\<close>

definition above :: "key list \<Rightarrow> key \<Rightarrow> nat" where
  "above ks k = (if k \<in> set ks then 1 else 0)"

lemma ranked_less:
  assumes "ranked rk g" and "(a, b) \<in> owns_rel g"
  shows "rk b < rk a"
proof -
  from assms(2) obtain n where n: "get g a = Some n" and b: "b \<in> set (owns n)"
    by (auto simp: owns_rel_def)
  show ?thesis
  proof (cases a)
    case None
    with n b assms(1) show ?thesis by (auto simp: get_def ranked_def list_all_iff)
  next
    case (Some ob)
    with n have "(ob, n) \<in> set (Nodes g)" by (simp add: get_def map_of_SomeD)
    with assms(1) have "list_all (\<lambda>c. rk c < rk (Some ob)) (owns n)"
      by (force simp: ranked_def list_all_iff)
    with b Some show ?thesis by (simp add: list_all_iff)
  qed
qed

lemma ranked_acyclic:
  assumes "ranked rk g"
  shows "acyclic (owns_rel g)"
proof -
  have "(owns_rel g)\<inverse> \<subseteq> measure rk" using ranked_less [OF assms] by auto
  then have "wf ((owns_rel g)\<inverse>)" by (rule wf_subset [OF wf_measure])
  then have "acyclic ((owns_rel g)\<inverse>)" by (rule wf_acyclic)
  then show ?thesis by (simp add: acyclic_converse)
qed

lemma finite_owns_rel: "finite (owns_rel g)"
proof -
  let ?K = "insert None (Some ` fst ` set (Nodes g))"
  let ?N = "insert (Root g) (snd ` set (Nodes g))"
  have "owns_rel g \<subseteq> ?K \<times> (\<Union>n\<in>?N. set (owns n))"
  proof
    fix x assume "x \<in> owns_rel g"
    then obtain a b n where x: "x = (a, b)" and n: "get g a = Some n" and b: "b \<in> set (owns n)"
      by (auto simp: owns_rel_def)
    show "x \<in> ?K \<times> (\<Union>n\<in>?N. set (owns n))"
    proof (cases a)
      case None
      with n b x show ?thesis by (auto simp: get_def)
    next
      case (Some ob)
      with n have "(ob, n) \<in> set (Nodes g)" by (simp add: get_def map_of_SomeD)
      with b x Some show ?thesis by force
    qed
  qed
  moreover have "finite (?K \<times> (\<Union>n\<in>?N. set (owns n)))" by simp
  ultimately show ?thesis by (rule finite_subset)
qed

lemma acyclic_owns_wf: "acyclic (owns_rel g) \<Longrightarrow> wf ((owns_rel g)\<inverse>)"
  by (rule finite_acyclic_wf_converse [OF finite_owns_rel])

text \<open>Quieting one node, with all that it owns, returns, and changes no edge.\<close>

lemma quieten_stack_step:
  assumes w: "wf (R\<inverse>)"
  shows "owns_rel g = R \<Longrightarrow>
         \<exists>g1. owns_rel g1 = R \<and> quieten_stack (k # rest) g = quieten_stack rest g1"
  using w
proof (induction k arbitrary: rest g rule: wf_induct_rule)
  case (less k)
  show ?case
  proof (cases "get g k")
    case None
    with less.prems show ?thesis by (auto simp: quieten_stack_Cons)
  next
    case (Some n)
    have own: "(k, c) \<in> R" if "c \<in> set (owns n)" for c
      using that Some less.prems by (auto simp: owns_rel_def)
    have children: "\<exists>g1. owns_rel g1 = R \<and> quieten_stack (cs @ rest) h = quieten_stack rest g1"
      if "set cs \<subseteq> set (owns n)" "owns_rel h = R" for cs h
      using that
    proof (induction cs arbitrary: h)
      case Nil
      then show ?case by auto
    next
      case (Cons c cs)
      from Cons.prems(1) own have "(c, k) \<in> R\<inverse>" by simp
      from less.IH [OF this Cons.prems(2), of "cs @ rest"] obtain h1
        where h1: "owns_rel h1 = R"
          and s: "quieten_stack (c # cs @ rest) h = quieten_stack (cs @ rest) h1" by blast
      from Cons.IH [OF _ h1] Cons.prems(1) obtain g1
        where "owns_rel g1 = R" "quieten_stack (cs @ rest) h1 = quieten_stack rest g1" by auto
      with s show ?case by auto
    qed
    have "owns_rel (upd k mark_quiet g) = R" using less.prems by simp
    from children [OF subset_refl this] Some show ?thesis by (auto simp: quieten_stack_Cons)
  qed
qed

lemma quieten_stack_returns:
  assumes "wf (R\<inverse>)"
  shows "owns_rel g = R \<Longrightarrow> \<exists>g'. quieten_stack ks g = Some g' \<and> owns_rel g' = R"
proof (induction ks arbitrary: g)
  case Nil
  then show ?case by simp
next
  case (Cons k ks)
  from quieten_stack_step [OF assms Cons.prems, of k ks] obtain g1
    where "owns_rel g1 = R" "quieten_stack (k # ks) g = quieten_stack ks g1" by blast
  with Cons.IH [of g1] show ?case by auto
qed

lemma quieten_unseen_returns:
  assumes "wf (R\<inverse>)"
  shows "owns_rel g = R \<Longrightarrow> \<exists>g'. quieten_unseen ns g = Some g'"
proof (induction ns arbitrary: g)
  case Nil
  then show ?case by simp
next
  case (Cons kn ns)
  show ?case
  proof (cases "seen (snd kn)")
    case True
    with Cons show ?thesis by simp
  next
    case False
    from quieten_stack_returns [OF assms Cons.prems, of "owns (snd kn)"] obtain g1
      where "quieten_stack (owns (snd kn)) g = Some g1" "owns_rel g1 = R" by blast
    with Cons.IH [of g1] False show ?thesis by auto
  qed
qed

lemma marked_flags:
  assumes wf: "wf_graph g" and fr: "fresh g" and m: "marked g = Some g2"
  shows "is_seen g2 k \<longleftrightarrow> has_node g k \<and> k \<in> reach g"
    and "is_quiet g2 k \<longleftrightarrow> has_node g k \<and> k \<in> quieted g"
proof -
  from m have q: "quieten_unseen (Nodes (color None g)) (color None g) = Some g2"
    by (simp add: marked_def)
  from quieten_unseen_frame [OF q] have "is_seen g2 k = is_seen (color None g) k"
    by (simp add: frame_quiet_def)
  with color_seen_iff [OF fr] show "is_seen g2 k \<longleftrightarrow> has_node g k \<and> k \<in> reach g" by simp
  from wf have "distinct (map fst (Nodes g))" by (simp add: wf_graph_def)
  from results_quiet_iff [OF this fr q]
  show "is_quiet g2 k \<longleftrightarrow> has_node g k \<and> k \<in> quieted g" .
qed

lemma marked_returns:
  assumes "acyclic (owns_rel g)"
  shows "\<exists>g2. marked g = Some g2"
  unfolding marked_def
  by (rule quieten_unseen_returns [OF acyclic_owns_wf [OF assms]]) (simp add: color_owns_rel)

lemma results_returns:
  assumes wf: "wf_graph g" and fr: "fresh g" and ac: "acyclic (owns_rel g)"
  shows "\<exists>used unused. results p g = Some (Inr (used, unused))"
proof -
  from marked_returns [OF ac] obtain g2 where "marked g = Some g2" by blast
  then have r: "results p g = Some (classify p (Nodes g2) ([], []))"
    by (simp add: results_def marked_def Let_def)
  from results_characterization [OF wf fr r] obtain used unused
    where "classify p (Nodes g2) ([], []) = Inr (used, unused)" by blast
  with r show ?thesis by simp
qed



subsection \<open>Steps within steps\<close>

text \<open>
  \<open>within c f\<close>: whenever the step \<open>f\<close> returns a graph, the step \<open>c\<close> has returned a graph in
  the course of it, and the graph that \<open>f\<close> returns has grown from that one.
\<close>

definition within :: "step \<Rightarrow> step \<Rightarrow> bool" where
  "within c f = (\<forall>g g'. f g = Inr g' \<longrightarrow> (\<exists>g1 g2. c g1 = Inr g2 \<and> grows g2 g'))"


lemma within_refl [simp]: "within c c"
  unfolding within_def by (blast intro: grows_refl)

lemma within_trans: "within c f \<Longrightarrow> within f h \<Longrightarrow> within c h"
  unfolding within_def by (meson grows_trans)

lemma within_fail [simp]: "within c (fail e)"
  by (simp add: within_def fail_def)









section \<open>The fields of a named struct type\<close>

text \<open>
  \<open>namedField\<close> is the body of the loop of \<^verbatim>\<open>namedType\<close> over the names of a field of
  a struct: the type owns the field, the field uses its type, and the type uses the field
  when the field is blank, exported or of the shape of the no-copy sentinel.
\<close>

definition namedField :: "pass \<Rightarrow> expr \<Rightarrow> key \<Rightarrow> ident \<Rightarrow> step" where
  "namedField p ftype by n =
     seqE [see (ObjectOf n) by,
           walk_expr p ftype ERead (ObjectOf n),
           (if Name n = ''_'' then use p (ObjectOf n) by
            else if IsExported (Upper p) (Name n) then use p (ObjectOf n) by
            else ok),
           (case ObjectOf n of
              None \<Rightarrow> fail NilDereference
            | Some ob \<Rightarrow>
                if isNoCopyType (ObjType p ob) then use p (Some ob) by
                else ok)]"

lemma preserving_namedField [simp]: "preserving (namedField p ftype by n)"
  by (simp add: namedField_def preserving_seqE_Cons split: option.split)






section \<open>Example units\<close>

text \<open>
  The units below are small Go packages, given as the typed syntax tree that the front end
  hands to the analysis. All of them are package \<^verbatim>\<open>example.com/p\<close>, in one file
  \<^verbatim>\<open>a.go\<close>; the number of an object is its line.
\<close>

definition pkgP :: package where
  "pkgP = \<lparr>pkg_path = ''example.com/p'', pkg_name = ''p''\<rparr>"

definition mkobj :: "nat \<Rightarrow> string \<Rightarrow> objclass \<Rightarrow> bool \<Rightarrow> bool \<Rightarrow> object" where
  "mkobj i name cls isfield global =
     \<lparr>oid = i, oname = name, oclass = cls, opkg = Some pkgP, oisfield = isfield,
      oembedded = False, oglobal = global, ofile = ''a.go'', oline = int i, oinst = 0\<rparr>"

definition objInt :: object where
  "objInt = \<lparr>oid = 0, oname = ''int'', oclass = TypeName, opkg = None, oisfield = False,
      oembedded = False, oglobal = False, ofile = [], oline = 0, oinst = 0\<rparr>"

definition tInt :: expr where
  "tInt = Ident (MkIdent ''int'' (Some objInt) (Some (Basic ''int'')))"

definition mkpass :: "decl list \<Rightarrow> (object \<Rightarrow> gotype) \<Rightarrow> pass" where
  "mkpass ds ty =
     \<lparr>Pkg = pkgP, Files = [\<lparr>Comments = [], Decls = ds\<rparr>], ScopeLookup = (\<lambda>_. None),
      ObjType = ty, IsAlias = (\<lambda>_. False), MethodSet = (\<lambda>_. []),
      implements = (\<lambda>_ _ _. None), runtimeFuncs = (\<lambda>_. False), Upper = (\<lambda>_. False),
      Directives = []\<rparr>"

text \<open>
  \<^verbatim>\<open>func F(x int) {}\<close>
\<close>

definition objF :: object where "objF = mkobj 1 ''F'' Func False True"
definition objx :: object where "objx = mkobj 2 ''x'' Var False False"

definition unit_param :: pass where
  "unit_param = mkpass
     [FuncDecl (MkIdent ''F'' (Some objF) (Some (Signature 1 0))) []
        (FuncType [] [Field [MkIdent ''x'' (Some objx) (Some (Basic ''int''))] tInt] [])
        [] []]
     (\<lambda>ob. if ob = objF then Signature 1 0 else Basic ''int'')"

text \<open>
  \<^verbatim>\<open>func F() { g() }\<close> and \<^verbatim>\<open>func g() {}\<close>
\<close>

definition objg :: object where "objg = mkobj 3 ''g'' Func False True"

definition unit_call :: pass where
  "unit_call = mkpass
     [FuncDecl (MkIdent ''F'' (Some objF) (Some (Signature 0 0))) [] (FuncType [] [] [])
        [ExprStmt (CallExpr (Ident (MkIdent ''g'' (Some objg) (Some (Signature 0 0)))) []
                    False (Some (Signature 0 0)) None)] [],
      FuncDecl (MkIdent ''g'' (Some objg) (Some (Signature 0 0))) [] (FuncType [] [] []) [] []]
     (\<lambda>_. Signature 0 0)"


text \<open>
  Two struct types and a conversion between them in a function that nothing uses:

  \<^verbatim>\<open>type a struct{ x int }\<close>

  \<^verbatim>\<open>type b struct{ x int }\<close>

  \<^verbatim>\<open>func G() int { var v a; return v.x }\<close>

  \<^verbatim>\<open>func f(q b) a { return a(q) }\<close>
\<close>

definition obja :: object where "obja = mkobj 10 ''a'' TypeName False True"
definition objax :: object where "objax = mkobj 11 ''x'' Var True False"
definition objb :: object where "objb = mkobj 12 ''b'' TypeName False True"
definition objbx :: object where "objbx = mkobj 13 ''x'' Var True False"
definition objG :: object where "objG = mkobj 14 ''G'' Func False True"
definition objv :: object where "objv = mkobj 15 ''v'' Var False False"
definition objf :: object where "objf = mkobj 16 ''f'' Func False True"
definition objq :: object where "objq = mkobj 17 ''q'' Var False False"

definition structA :: gotype where "structA = Struct 1 [(objax, Basic ''int'')]"
definition structB :: gotype where "structB = Struct 2 [(objbx, Basic ''int'')]"
definition namedA :: gotype where "namedA = Named obja [] structA"
definition namedB :: gotype where "namedB = Named objb [] structB"

definition identA :: expr where "identA = Ident (MkIdent ''a'' (Some obja) (Some namedA))"
definition identB :: expr where "identB = Ident (MkIdent ''b'' (Some objb) (Some namedB))"

definition declA :: decl where
  "declA = GenDecl TYPE_tok
     [TypeSpec (MkIdent ''a'' (Some obja) (Some namedA)) [] False
        (StructType [Field [MkIdent ''x'' (Some objax) (Some (Basic ''int''))] tInt] (Some structA))]"

definition declB :: decl where
  "declB = GenDecl TYPE_tok
     [TypeSpec (MkIdent ''b'' (Some objb) (Some namedB)) [] False
        (StructType [Field [MkIdent ''x'' (Some objbx) (Some (Basic ''int''))] tInt] (Some structB))]"

definition types_conv :: "object \<Rightarrow> gotype" where
  "types_conv ob =
     (if ob = obja \<or> ob = objv then namedA
      else if ob = objb \<or> ob = objq then namedB
      else if ob = objG then Signature 0 1
      else if ob = objf then Signature 1 1
      else Basic ''int'')"

definition unit_conv :: pass where
  "unit_conv = mkpass
     [declA, declB,
      FuncDecl (MkIdent ''G'' (Some objG) (Some (Signature 0 1))) []
        (FuncType [] [] [Field [] tInt])
        [DeclStmt (GenDecl VAR_tok
           [ValueSpec False [MkIdent ''v'' (Some objv) (Some namedA)] identA []]),
         ReturnStmt [SelectorExpr (Ident (MkIdent ''v'' (Some objv) (Some namedA)))
                       (MkIdent ''x'' (Some objax) (Some (Basic ''int'')))
                       (Some (Selection [0] namedA objax))]] [],
      FuncDecl (MkIdent ''f'' (Some objf) (Some (Signature 1 1))) []
        (FuncType [] [Field [MkIdent ''q'' (Some objq) (Some namedB)] identB] [Field [] identA])
        [ReturnStmt [CallExpr identA [Ident (MkIdent ''q'' (Some objq) (Some namedB))] False
                       (Some namedA) (Some namedB)]] []]
     types_conv"

text \<open>
  A struct type that nothing uses and an exported struct type, each with a field that
  nothing reads:

  \<^verbatim>\<open>type t struct{ x int }\<close>

  \<^verbatim>\<open>type U struct{ y int }\<close>
\<close>

definition objt :: object where "objt = mkobj 20 ''t'' TypeName False True"
definition objtx :: object where "objtx = mkobj 21 ''x'' Var True False"
definition objU :: object where "objU = mkobj 22 ''U'' TypeName False True"
definition objUy :: object where "objUy = mkobj 23 ''y'' Var True False"

definition structT :: gotype where "structT = Struct 3 [(objtx, Basic ''int'')]"
definition structU :: gotype where "structU = Struct 4 [(objUy, Basic ''int'')]"

definition identT :: ident where "identT = MkIdent ''t'' (Some objt) (Some (Named objt [] structT))"
definition identTx :: ident where "identTx = MkIdent ''x'' (Some objtx) (Some (Basic ''int''))"
definition identU :: ident where "identU = MkIdent ''U'' (Some objU) (Some (Named objU [] structU))"
definition identUy :: ident where "identUy = MkIdent ''y'' (Some objUy) (Some (Basic ''int''))"

definition specT :: spec where
  "specT = TypeSpec identT [] False (StructType [Field [identTx] tInt] (Some structT))"

definition specU :: spec where
  "specU = TypeSpec identU [] False (StructType [Field [identUy] tInt] (Some structU))"

definition unit_fields :: pass where
  "unit_fields = mkpass [GenDecl TYPE_tok [specT], GenDecl TYPE_tok [specU]]
     (\<lambda>ob. if ob = objt then Named objt [] structT
           else if ob = objU then Named objU [] structU
           else Basic ''int'')"


text \<open>
  \<^verbatim>\<open>const ( a = 1; _ = 2; b = 3 )\<close> and \<^verbatim>\<open>func F() int { return a }\<close>
\<close>

definition constA :: object where "constA = mkobj 10 ''a'' Const False True"
definition constBlank :: object where "constBlank = mkobj 11 ''_'' Const False False"
definition constB :: object where "constB = mkobj 12 ''b'' Const False True"

definition identConstA :: ident where
  "identConstA = MkIdent ''a'' (Some constA) (Some (Basic ''int''))"

definition identConstB :: ident where
  "identConstB = MkIdent ''b'' (Some constB) (Some (Basic ''int''))"

definition specs_consts :: "spec list" where
  "specs_consts =
     [ValueSpec True [identConstA] NilExpr [BasicLit],
      ValueSpec False [MkIdent ''_'' (Some constBlank) (Some (Basic ''int''))] NilExpr [BasicLit],
      ValueSpec False [identConstB] NilExpr [BasicLit]]"

definition unit_consts :: pass where
  "unit_consts = mkpass
     [GenDecl CONST_tok specs_consts,
      FuncDecl (MkIdent ''F'' (Some objF) (Some (Signature 0 1))) [] (FuncType [] [] [Field [] tInt])
        [ReturnStmt [Ident identConstA]] []]
     (\<lambda>ob. if ob = objF then Signature 0 1 else Basic ''int'')"


text \<open>
  The two struct types and the conversion alone:

  \<^verbatim>\<open>type a struct{ x int }\<close>

  \<^verbatim>\<open>type b struct{ x int }\<close>

  \<^verbatim>\<open>func f(q b) a { return a(q) }\<close>
\<close>

definition identq :: expr where "identq = Ident (MkIdent ''q'' (Some objq) (Some namedB))"

definition declf :: decl where
  "declf = FuncDecl (MkIdent ''f'' (Some objf) (Some (Signature 1 1))) []
        (FuncType [] [Field [MkIdent ''q'' (Some objq) (Some namedB)] identB] [Field [] identA])
        [ReturnStmt [CallExpr identA [identq] False (Some namedA) (Some namedB)]] []"

definition unit_conv_only :: pass where
  "unit_conv_only = mkpass [declA, declB, declf] types_conv"

text \<open>
  The same with an exported function that uses both types, and no field:

  \<^verbatim>\<open>func H(u a, w b) {}\<close>
\<close>

definition objH :: object where "objH = mkobj 30 ''H'' Func False True"
definition obju :: object where "obju = mkobj 31 ''u'' Var False False"
definition objw :: object where "objw = mkobj 32 ''w'' Var False False"

definition declH :: decl where
  "declH = FuncDecl (MkIdent ''H'' (Some objH) (Some (Signature 2 0))) []
        (FuncType [] [Field [MkIdent ''u'' (Some obju) (Some namedA)] identA,
                      Field [MkIdent ''w'' (Some objw) (Some namedB)] identB] [])
        [] []"

definition types_conv_used :: "object \<Rightarrow> gotype" where
  "types_conv_used ob =
     (if ob = obju then namedA else if ob = objw then namedB
      else if ob = objH then Signature 2 0 else types_conv ob)"

definition unit_conv_used :: pass where
  "unit_conv_used = mkpass [declA, declB, declH, declf] types_conv_used"


text \<open>
  A package-level variable that is only written, by an ordinary function:

  \<^verbatim>\<open>var x int\<close>

  \<^verbatim>\<open>func init() { x = 5 }\<close>
\<close>

definition objVarX :: object where "objVarX = mkobj 40 ''x'' Var False True"
definition objInit :: object where "objInit = mkobj 41 ''init'' Func False True"

definition identVarX :: ident where
  "identVarX = MkIdent ''x'' (Some objVarX) (Some (Basic ''int''))"

definition declInit :: "stmt list \<Rightarrow> decl" where
  "declInit body = FuncDecl (MkIdent ''init'' (Some objInit) (Some (Signature 0 0))) []
                     (FuncType [] [] []) body []"

definition unit_write :: pass where
  "unit_write = mkpass
     [GenDecl VAR_tok [ValueSpec False [identVarX] tInt []],
      declInit [AssignStmt ASSIGN_tok [Ident identVarX] [BasicLit]]]
     (\<lambda>ob. if ob = objInit then Signature 0 0 else Basic ''int'')"

text \<open>
  A package-level array that is only written, one element at a time:

  \<^verbatim>\<open>var m [3]int\<close>

  \<^verbatim>\<open>func init() { m[0] = 5 }\<close>
\<close>

definition objVarM :: object where "objVarM = mkobj 42 ''m'' Var False True"

definition identVarM :: ident where
  "identVarM = MkIdent ''m'' (Some objVarM) (Some OtherType)"

definition unit_index_write :: pass where
  "unit_index_write = mkpass
     [GenDecl VAR_tok [ValueSpec False [identVarM] (ArrayType BasicLit tInt) []],
      declInit [AssignStmt ASSIGN_tok [IndexExpr (Ident identVarM) BasicLit] [BasicLit]]]
     (\<lambda>ob. if ob = objInit then Signature 0 0 else if ob = objVarM then OtherType
           else Basic ''int'')"


text \<open>
  A function that nothing uses, with a local variable under a directive:

  \<^verbatim>\<open>func h() int {\<close>

  \<^verbatim>\<open>    //lint:ignore U1000 kept\<close>

  \<^verbatim>\<open>    x := 1\<close>

  \<^verbatim>\<open>    return x\<close>

  \<^verbatim>\<open>}\<close>
\<close>

definition objh :: object where "objh = mkobj 50 ''h'' Func False True"
definition objhx :: object where "objhx = mkobj 52 ''x'' Var False False"

definition identhx :: expr where
  "identhx = Ident (MkIdent ''x'' (Some objhx) (Some (Basic ''int'')))"

definition unit_ignored :: pass where
  "unit_ignored = (mkpass
     [FuncDecl (MkIdent ''h'' (Some objh) (Some (Signature 0 1))) []
        (FuncType [] [] [Field [] tInt])
        [AssignStmt DEFINE_tok [identhx] [BasicLit], ReturnStmt [identhx]] []]
     (\<lambda>ob. if ob = objh then Signature 0 1 else Basic ''int''))
     \<lparr>Directives := [\<lparr>Command = ''ignore'', Arguments = [''U1000'', ''kept''],
                       dir_file = ''a.go'', dir_line = 52\<rparr>]\<rparr>"


section \<open>The graphs of the example units\<close>

text \<open>
  For each unit, the graph that \<^verbatim>\<open>entry\<close> builds, written out, and the graph after
  coloring and quieting.
\<close>

lemma run_entry: "entry p newGraph = Inr g \<Longrightarrow> run p = results p g"
  by (simp add: run_def)

definition marks :: "graph \<Rightarrow> graph" where
  "marks g = (case marked g of None \<Rightarrow> g | Some g2 \<Rightarrow> g2)"

definition graph_conv :: graph where
  "graph_conv =
     \<lparr>Root =
        \<lparr>obj = None, node_id = 1, uses = [Some objG], owns = [], seen = False,
         quiet = False\<rparr>,
      Nodes =
       [(obja,
          \<lparr>obj = Some obja, node_id = 2, uses = [], owns = [Some objax],
           seen = False, quiet = False\<rparr>),
        (objax,
          \<lparr>obj = Some objax, node_id = 3, uses = [Some objbx], owns = [],
           seen = False, quiet = False\<rparr>),
        (objb,
          \<lparr>obj = Some objb, node_id = 4, uses = [], owns = [Some objbx],
           seen = False, quiet = False\<rparr>),
        (objbx,
          \<lparr>obj = Some objbx, node_id = 5, uses = [Some objax], owns = [],
           seen = False, quiet = False\<rparr>),
        (objG,
          \<lparr>obj = Some objG, node_id = 6, uses = [Some objv, Some objax],
           owns = [Some objv], seen = False, quiet = False\<rparr>),
        (objv,
          \<lparr>obj = Some objv, node_id = 7, uses = [Some obja], owns = [], seen = False,
           quiet = False\<rparr>),
        (objf,
          \<lparr>obj = Some objf, node_id = 8, uses = [Some objq, Some obja, Some obja,
           Some objq], owns = [Some objq], seen = False, quiet = False\<rparr>),
        (objq,
          \<lparr>obj = Some objq, node_id = 9, uses = [Some objb], owns = [], seen = False,
           quiet = False\<rparr>)],
      nodeCounter = 9, namedTypes = [obja, objb], interfaceTypes = []\<rparr>"

lemma entry_unit_conv: "entry unit_conv newGraph = Inr graph_conv"
  by code_simp


definition graph_fields :: graph where
  "graph_fields =
     \<lparr>Root =
        \<lparr>obj = None, node_id = 1, uses = [Some objU], owns = [], seen = False,
         quiet = False\<rparr>,
      Nodes =
       [(objt,
          \<lparr>obj = Some objt, node_id = 2, uses = [], owns = [Some objtx],
           seen = False, quiet = False\<rparr>),
        (objtx,
          \<lparr>obj = Some objtx, node_id = 3, uses = [], owns = [], seen = False,
           quiet = False\<rparr>),
        (objU,
          \<lparr>obj = Some objU, node_id = 4, uses = [], owns = [Some objUy],
           seen = False, quiet = False\<rparr>),
        (objUy,
          \<lparr>obj = Some objUy, node_id = 5, uses = [], owns = [], seen = False,
           quiet = False\<rparr>)],
      nodeCounter = 5, namedTypes = [objt, objU], interfaceTypes = []\<rparr>"

lemma entry_unit_fields: "entry unit_fields newGraph = Inr graph_fields"
  by code_simp

lemma graph_of_unit_fields: "graph_of unit_fields = graph_fields"
  by (simp add: graph_of_def entry_unit_fields)

definition graph_ignored :: graph where
  "graph_ignored =
     \<lparr>Root =
        \<lparr>obj = None, node_id = 1, uses = [Some objhx], owns = [], seen = False,
         quiet = False\<rparr>,
      Nodes =
       [(objh,
          \<lparr>obj = Some objh, node_id = 2, uses = [Some objhx], owns = [Some objhx],
           seen = False, quiet = False\<rparr>),
        (objhx,
          \<lparr>obj = Some objhx, node_id = 3, uses = [], owns = [], seen = False,
           quiet = False\<rparr>)],
      nodeCounter = 3, namedTypes = [], interfaceTypes = []\<rparr>"

lemma entry_unit_ignored: "entry unit_ignored newGraph = Inr graph_ignored"
  by code_simp

lemma graph_of_unit_ignored: "graph_of unit_ignored = graph_ignored"
  by (simp add: graph_of_def entry_unit_ignored)


section \<open>Claims\<close>

text \<open>
  C1, as stated: for every pair of entities A and B in the final graph, if a use edge from A
  to B exists and A is classified Used, then B is classified Used. This fails: in
  \<^verbatim>\<open>func F(x int) {}\<close> the function F uses its parameter x and is in Used, and x,
  a local variable, is left out of the report.
\<close>

theorem c1_counterexample:
  "use_edge (graph_of unit_param) (Some objF) (Some objx) \<and>
   run unit_param = Some (Inr ([objF], [])) \<and> objx \<notin> set [objF]"
  by code_simp

text \<open>
  C1, amended: if a use edge from A to B exists and A is classified Used, then B is marked
  seen by the coloring, and B is classified Used whenever B passes the filter of the report
  (it belongs to the unit and is neither a local variable nor an unnamed field).
\<close>

theorem c1_closure:
  assumes "wf_graph g" and "fresh g" and "results p g = Some (Inr (used, unused))"
    and "a \<in> set used" and "use_edge g (Some a) (Some b)" and "has_node g (Some b)"
  shows "is_seen (color None g) (Some b) \<and> (reportable p b \<longrightarrow> b \<in> set used)"
proof -
  from results_characterization [OF assms(1,2,3)]
  have u: "set used = {ob. has_node g (Some ob) \<and> reportable p ob \<and> Some ob \<in> reach g}"
    by simp
  with assms(4) have "Some a \<in> reach g" by simp
  with assms(5) have r: "Some b \<in> reach g" by (auto simp: use_edge_iff intro: reach_step)
  with assms(6) color_seen_iff [OF assms(2), of "Some b"] u show ?thesis by simp
qed

theorem c1_closure_witness:
  "wf_graph (graph_of unit_call) \<and> fresh (graph_of unit_call) \<and>
   results unit_call (graph_of unit_call) = Some (Inr ([objF, objg], [])) \<and>
   objF \<in> set [objF, objg] \<and>
   use_edge (graph_of unit_call) (Some objF) (Some objg) \<and>
   has_node (graph_of unit_call) (Some objg) \<and> reportable unit_call objg \<and>
   is_seen (color None (graph_of unit_call)) (Some objg) \<and> objg \<in> set [objF, objg]"
proof -
  have 1: "wf_graph (graph_of unit_call)" by code_simp
  have 2: "fresh (graph_of unit_call)" by code_simp
  have 3: "results unit_call (graph_of unit_call) = Some (Inr ([objF, objg], []))" by code_simp
  have 4: "objF \<in> set [objF, objg]" by simp
  have 5: "use_edge (graph_of unit_call) (Some objF) (Some objg)" by code_simp
  have 6: "has_node (graph_of unit_call) (Some objg)" by code_simp
  have 7: "reportable unit_call objg" by code_simp
  from c1_closure [OF 1 2 3 4 5 6] 7
  have "is_seen (color None (graph_of unit_call)) (Some objg) \<and> objg \<in> set [objF, objg]"
    by blast
  with 1 2 3 4 5 6 7 show ?thesis by blast
qed






text \<open>
  C10, as stated: every node that is seen is reported in Used, even if it is also quiet. This
  fails for the nodes that \<^verbatim>\<open>results\<close> skips before it looks at the marks. In the unit
  below the local variable x is under a directive, so Root uses it and it is seen; the
  function h is not seen and owns x, so x is quiet; and x is not in Used.
\<close>

theorem c10_counterexample:
  "map_option (\<lambda>g. is_seen g (Some objhx) \<and> is_quiet g (Some objhx))
     (marked (graph_of unit_ignored)) = Some True \<and>
   run unit_ignored = Some (Inr ([], [objh])) \<and> objhx \<notin> set []"
proof -
  have "map_option (\<lambda>g. is_seen g (Some objhx) \<and> is_quiet g (Some objhx))
          (marked graph_ignored) = Some True" by code_simp
  moreover have "results unit_ignored graph_ignored = Some (Inr ([], [objh]))" by code_simp
  ultimately show ?thesis
    by (simp add: graph_of_unit_ignored run_entry [OF entry_unit_ignored])
qed

text \<open>
  C10, amended: let the owns relation of the graph have no cycle, so that \<^verbatim>\<open>quieten\<close>
  returns. Then \<^verbatim>\<open>results\<close> returns the two lists, and every node reachable from Root
  whose object \<^verbatim>\<open>results\<close> does not skip is in Used and not in Unused, whether the
  node is quiet or not. \<^verbatim>\<open>results\<close> skips an object that is not of the package under
  analysis, a field with the empty name, and a variable that is not a field and whose parent
  scope is not the scope of the package (a local variable, and also a variable named
  \<^verbatim>\<open>_\<close>, at package level too).
\<close>

theorem c10_seen_precedence:
  assumes "wf_graph g" and "fresh g" and "acyclic (owns_rel g)"
    and "has_node g (Some ob)" and "Some ob \<in> reach g"
    and "opkg ob = Some (Pkg p)"
    and "\<not> (oclass ob = Var \<and> oname ob = [] \<and> oisfield ob)"
    and "\<not> (oclass ob = Var \<and> \<not> oisfield ob \<and> \<not> oglobal ob)"
  shows "\<exists>g2 used unused.
           marked g = Some g2 \<and> results p g = Some (Inr (used, unused)) \<and>
           is_seen g2 (Some ob) \<and> (is_quiet g2 (Some ob) \<longleftrightarrow> Some ob \<in> quieted g) \<and>
           ob \<in> set used \<and> ob \<notin> set unused"
proof -
  from marked_returns [OF assms(3)] obtain g2 where m: "marked g = Some g2" by blast
  from results_returns [OF assms(1-3)] obtain used unused
    where r: "results p g = Some (Inr (used, unused))" by blast
  note fl = marked_flags [OF assms(1,2) m]
  from results_characterization [OF assms(1,2) r]
  have u: "set used = {ob. has_node g (Some ob) \<and> reportable p ob \<and> Some ob \<in> reach g}"
    and un: "set unused = {ob. has_node g (Some ob) \<and> reportable p ob \<and>
                             Some ob \<notin> reach g \<and> Some ob \<notin> quieted g}"
    by simp_all
  from assms(6-8) have "reportable p ob" by (simp add: reportable_def)
  with u un assms(4,5) fl [of "Some ob"] m r show ?thesis by simp
qed

theorem c10_seen_precedence_witness:
  "entry unit_conv newGraph = Inr graph_conv \<and>
   wf_graph graph_conv \<and> fresh graph_conv \<and> acyclic (owns_rel graph_conv) \<and>
   has_node graph_conv (Some objbx) \<and> Some objbx \<in> reach graph_conv \<and>
   opkg objbx = Some (Pkg unit_conv) \<and>
   \<not> (oclass objbx = Var \<and> oname objbx = [] \<and> oisfield objbx) \<and>
   \<not> (oclass objbx = Var \<and> \<not> oisfield objbx \<and> \<not> oglobal objbx) \<and>
   marked graph_conv = Some (marks graph_conv) \<and>
   results unit_conv graph_conv = Some (Inr ([obja, objax, objbx, objG], [objb, objf])) \<and>
   is_seen (marks graph_conv) (Some objbx) \<and> is_quiet (marks graph_conv) (Some objbx) \<and>
   objbx \<in> set [obja, objax, objbx, objG] \<and> objbx \<notin> set [objb, objf]"
proof -
  note e = entry_unit_conv
  from entry_built [OF e] have 1: "wf_graph graph_conv" and 2: "fresh graph_conv"
    by (simp_all add: built_def)
  have "ranked (above [Some obja, Some objb, Some objG, Some objf]) graph_conv" by code_simp
  then have 3: "acyclic (owns_rel graph_conv)" by (rule ranked_acyclic)
  have 4: "has_node graph_conv (Some objbx)" by code_simp
  have "is_seen (color None graph_conv) (Some objbx)" by code_simp
  with color_seen_iff [OF 2] have 5: "Some objbx \<in> reach graph_conv" by simp
  have 6: "opkg objbx = Some (Pkg unit_conv)" by code_simp
  have 7: "\<not> (oclass objbx = Var \<and> oname objbx = [] \<and> oisfield objbx)" by code_simp
  have 8: "\<not> (oclass objbx = Var \<and> \<not> oisfield objbx \<and> \<not> oglobal objbx)" by code_simp
  have m: "marked graph_conv = Some (marks graph_conv)" by code_simp
  have r: "results unit_conv graph_conv =
           Some (Inr ([obja, objax, objbx, objG], [objb, objf]))" by code_simp
  have q: "is_quiet (marks graph_conv) (Some objbx)" by code_simp
  from c10_seen_precedence [OF 1 2 3 4 5 6 7 8] m r
  have "is_seen (marks graph_conv) (Some objbx) \<and> objbx \<in> set [obja, objax, objbx, objG] \<and>
        objbx \<notin> set [objb, objf]" by auto
  with e 1 2 3 4 5 6 7 8 m r q show ?thesis by blast
qed


end
